theory Spec2Isabelle
  imports Main
begin

section \<open>Strings and numbers of the host language\<close>

text \<open>
  A JavaScript string is a sequence of UTF-16 code units.  A code unit is modelled by its
  numeric value; the ASCII literals of the source are written as Isabelle string literals
  and converted by \<open>js\<close>.  Identifiers, counters and time stamps are JavaScript numbers that
  hold integers; they are modelled as \<open>int\<close>.
\<close>

type_synonym codeunit = nat
type_synonym jsstring = "codeunit list"

definition ch :: "char \<Rightarrow> codeunit" where
  "ch c = of_char c"

definition js :: "string \<Rightarrow> jsstring" where
  "js s = map ch s"

text \<open>
  A JavaScript number is an IEEE 754 double.  Every integer up to \<open>2 ^ 53\<close> in absolute
  value is a double; above, the doubles are the multiples of the unit in the last place,
  which doubles with every power of two.  \<open>+\<close> and \<open>-\<close> give the double that is nearest
  to the exact result, the one with the even mantissa when two are equally near.  (A result
  beyond the largest double, near \<open>2 ^ 1024\<close>, is \<^verbatim>\<open>Infinity\<close> in JavaScript; the model
  has no such value.)
\<close>

function ulp :: "nat \<Rightarrow> nat" where
  "ulp n = (if n < 2 ^ 53 then 1 else 2 * ulp (n div 2))"
  by pat_completeness auto
termination
  by (relation "measure id") auto

declare ulp.simps [simp del]

definition to_double :: "int \<Rightarrow> int" where
  "to_double x =
     (let q = int (ulp (nat \<bar>x\<bar>)); d = x div q; r = x mod q
      in if 2 * r < q then d * q
         else if 2 * r > q then (d + 1) * q
         else if even d then d * q else (d + 1) * q)"

definition js_add :: "int \<Rightarrow> int \<Rightarrow> int" where
  "js_add a b = to_double (a + b)"

definition js_sub :: "int \<Rightarrow> int \<Rightarrow> int" where
  "js_sub a b = to_double (a - b)"

section \<open>The comment collection\<close>

text \<open>
  \<^verbatim>\<open>interface User { name: string; avatar: { large: string; }; }\<close>
\<close>

record user =
  name :: jsstring
  avatar_large :: jsstring

text \<open>
  \<^verbatim>\<open>interface ThreadComment { id; comment; createdAt; likeCount; isLiked; user;
     childComments?: ThreadComment[]; isOptimistic?: boolean; }\<close>
  The two optional fields are options: an absent \<open>childComments\<close> is \<open>None\<close>, which the
  code tells apart from the empty array (every array is truthy).  The selector of the field
  \<open>id\<close> is called \<open>id_c\<close>.
\<close>

datatype ThreadComment = ThreadComment
  (id_c: int) (comment: jsstring) (createdAt: int) (likeCount: int) (isLiked: bool)
  (user: user) (childComments: "ThreadComment list option") (isOptimistic: "bool option")

subsection \<open>handleToggleLike\<close>

text \<open>
  \<^verbatim>\<open>commentList.map(comment => { if (comment.id === commentId) return { ...comment,
  isLiked: !comment.isLiked, likeCount: comment.isLiked ? comment.likeCount - 1 :
  comment.likeCount + 1 }; if (comment.childComments) return { ...comment, childComments:
  updateCommentInTree(comment.childComments) }; return comment; })\<close>.
  \<open>updateComment\<close> is the function that is mapped over the list.
\<close>

fun updateComment :: "int \<Rightarrow> ThreadComment \<Rightarrow> ThreadComment" where
  "updateComment commentId (ThreadComment i c t n l u chs opt) =
     (if i = commentId
      then ThreadComment i c t (if l then js_sub n 1 else js_add n 1) (\<not> l) u chs opt
      else (case chs of
              Some cs \<Rightarrow> ThreadComment i c t n l u (Some (map (updateComment commentId) cs)) opt
            | None \<Rightarrow> ThreadComment i c t n l u chs opt))"

definition updateCommentInTree :: "int \<Rightarrow> ThreadComment list \<Rightarrow> ThreadComment list" where
  "updateCommentInTree commentId commentList = map (updateComment commentId) commentList"

subsection \<open>handlePostReply\<close>

text \<open>
  The temporary node.  \<open>temporaryId\<close> is the value of the first \<^verbatim>\<open>Date.now()\<close>,
  \<open>now\<close> that of the second one (in \<^verbatim>\<open>Math.floor(Date.now() / 1000)\<close>), and \<open>me\<close>
  the current user.
\<close>

definition newComment :: "int \<Rightarrow> int \<Rightarrow> jsstring \<Rightarrow> user \<Rightarrow> ThreadComment" where
  "newComment temporaryId now text me =
     ThreadComment temporaryId text (now div 1000) 0 False me (Some []) (Some True)"

text \<open>\<^verbatim>\<open>c.childComments || []\<close>\<close>

definition kids :: "ThreadComment \<Rightarrow> ThreadComment list" where
  "kids c = (case childComments c of None \<Rightarrow> [] | Some cs \<Rightarrow> cs)"

text \<open>
  \<^verbatim>\<open>commentList.map(c => c.id === pId ? { ...c, childComments: [...(c.childComments || []),
  newComment] } : (c.childComments ? { ...c, childComments: addReplyToTree(c.childComments,
  pId) } : c))\<close>
\<close>

fun addReply_node :: "ThreadComment \<Rightarrow> int \<Rightarrow> ThreadComment \<Rightarrow> ThreadComment" where
  "addReply_node new pId (ThreadComment i c t n l u chs opt) =
     (if i = pId
      then ThreadComment i c t n l u
             (Some ((case chs of None \<Rightarrow> [] | Some cs \<Rightarrow> cs) @ [new])) opt
      else (case chs of
              Some cs \<Rightarrow> ThreadComment i c t n l u (Some (map (addReply_node new pId) cs)) opt
            | None \<Rightarrow> ThreadComment i c t n l u chs opt))"

definition addReplyToTree :: "ThreadComment \<Rightarrow> ThreadComment list \<Rightarrow> int \<Rightarrow> ThreadComment list" where
  "addReplyToTree new commentList pId = map (addReply_node new pId) commentList"

text \<open>
  \<^verbatim>\<open>if (parentCommentId) comments.set(addReplyToTree(currentComments, parentCommentId));
   else comments.set([newComment, ...currentComments]);\<close>
  The optional parameter is an option; the test is JavaScript truthiness, so that an
  undefined parent and the parent id \<open>0\<close> both take the second branch.
\<close>

definition truthy_num :: "int option \<Rightarrow> bool" where
  "truthy_num x = (case x of None \<Rightarrow> False | Some n \<Rightarrow> n \<noteq> 0)"

definition addReply :: "ThreadComment \<Rightarrow> int option \<Rightarrow> ThreadComment list \<Rightarrow> ThreadComment list" where
  "addReply new parentCommentId currentComments =
     (if truthy_num parentCommentId
      then addReplyToTree new currentComments (the parentCommentId)
      else new # currentComments)"

text \<open>
  The rollback of the \<^verbatim>\<open>catch\<close> branch:
  \<^verbatim>\<open>commentList.filter(c => c.id !== temporaryId).map(c => c.childComments ? { ...c,
  childComments: removeInTree(c.childComments) } : c)\<close>
\<close>

fun removeIn_node :: "int \<Rightarrow> ThreadComment \<Rightarrow> ThreadComment" where
  "removeIn_node temporaryId (ThreadComment i c t n l u chs opt) =
     (case chs of
        Some cs \<Rightarrow>
          ThreadComment i c t n l u
            (Some (map (removeIn_node temporaryId) (filter (\<lambda>c. id_c c \<noteq> temporaryId) cs))) opt
      | None \<Rightarrow> ThreadComment i c t n l u chs opt)"

definition removeInTree :: "int \<Rightarrow> ThreadComment list \<Rightarrow> ThreadComment list" where
  "removeInTree temporaryId commentList =
     map (removeIn_node temporaryId) (filter (\<lambda>c. id_c c \<noteq> temporaryId) commentList)"

subsection \<open>handleEditComment\<close>

text \<open>
  \<^verbatim>\<open>list.map(c => c.id === commentId ? (originalText = c.comment, { ...c, comment:
  newText }) : (c.childComments ? { ...c, childComments:
  findAndUpdateInTree(c.childComments) } : c))\<close>.
  The function assigns the captured variable \<^verbatim>\<open>originalText\<close> at every matching node;
  the variable is threaded through the traversal, in the order of \<^verbatim>\<open>map\<close>.
\<close>

fun findAndUpdateInTree ::
    "int \<Rightarrow> jsstring \<Rightarrow> ThreadComment list \<Rightarrow> jsstring \<Rightarrow> ThreadComment list \<times> jsstring"
  and findAndUpdate_node ::
    "int \<Rightarrow> jsstring \<Rightarrow> ThreadComment \<Rightarrow> jsstring \<Rightarrow> ThreadComment \<times> jsstring" where
  "findAndUpdateInTree commentId newText [] originalText = ([], originalText)"
| "findAndUpdateInTree commentId newText (c # cs) originalText =
     (case findAndUpdate_node commentId newText c originalText of
        (c', o1) \<Rightarrow>
          (case findAndUpdateInTree commentId newText cs o1 of
             (cs', o2) \<Rightarrow> (c' # cs', o2)))"
| "findAndUpdate_node commentId newText (ThreadComment i c t n l u chs opt) originalText =
     (if i = commentId
      then (ThreadComment i newText t n l u chs opt, c)
      else (case chs of
              Some cs \<Rightarrow>
                (case findAndUpdateInTree commentId newText cs originalText of
                   (cs', o1) \<Rightarrow> (ThreadComment i c t n l u (Some cs') opt, o1))
            | None \<Rightarrow> (ThreadComment i c t n l u chs opt, originalText)))"

subsection \<open>handleDeleteComment\<close>

text \<open>
  \<^verbatim>\<open>list.filter(c => c.id !== commentId).map(c => c.childComments ? { ...c,
  childComments: removeCommentFromTree(c.childComments) } : c)\<close>
\<close>

fun removeComment_node :: "int \<Rightarrow> ThreadComment \<Rightarrow> ThreadComment" where
  "removeComment_node commentId (ThreadComment i c t n l u chs opt) =
     (case chs of
        Some cs \<Rightarrow>
          ThreadComment i c t n l u
            (Some (map (removeComment_node commentId) (filter (\<lambda>c. id_c c \<noteq> commentId) cs))) opt
      | None \<Rightarrow> ThreadComment i c t n l u chs opt)"

definition removeCommentFromTree :: "int \<Rightarrow> ThreadComment list \<Rightarrow> ThreadComment list" where
  "removeCommentFromTree commentId list =
     map (removeComment_node commentId) (filter (\<lambda>c. id_c c \<noteq> commentId) list)"

subsection \<open>Nodes, paths and identifiers of a comment forest\<close>

fun nodes_of :: "ThreadComment \<Rightarrow> ThreadComment list" where
  "nodes_of (ThreadComment i c t n l u chs opt) =
     ThreadComment i c t n l u chs opt
       # (case chs of None \<Rightarrow> [] | Some cs \<Rightarrow> concat (map nodes_of cs))"

definition tree_nodes :: "ThreadComment list \<Rightarrow> ThreadComment list" where
  "tree_nodes cs = concat (map nodes_of cs)"

definition tree_ids :: "ThreadComment list \<Rightarrow> int set" where
  "tree_ids cs = id_c ` set (tree_nodes cs)"

text \<open>
  \<open>present_children\<close> replaces every absent \<open>childComments\<close> by the empty array, the
  reading \<^verbatim>\<open>c.childComments || []\<close> that the code itself applies.
\<close>

fun present_children :: "ThreadComment \<Rightarrow> ThreadComment" where
  "present_children (ThreadComment i c t n l u chs opt) =
     ThreadComment i c t n l u
       (Some (map present_children (case chs of None \<Rightarrow> [] | Some cs \<Rightarrow> cs))) opt"

text \<open>
  \<open>node_at p cs\<close> is the node reached from the top-level list \<open>cs\<close> by the sibling
  positions \<open>p\<close>; \<open>above p cs\<close> lists the identifiers of its proper ancestors.
\<close>

fun node_at :: "nat list \<Rightarrow> ThreadComment list \<Rightarrow> ThreadComment option" where
  "node_at [] cs = None"
| "node_at [k] cs = (if k < length cs then Some (cs ! k) else None)"
| "node_at (k # p) cs = (if k < length cs then node_at p (kids (cs ! k)) else None)"

fun above :: "nat list \<Rightarrow> ThreadComment list \<Rightarrow> int list" where
  "above [] cs = []"
| "above [k] cs = []"
| "above (k # p) cs = (if k < length cs then id_c (cs ! k) # above p (kids (cs ! k)) else [])"

section \<open>The markup parser\<close>

subsection \<open>Character classes\<close>

text \<open>
  The classes of the source's regular expressions, on code units: \<^verbatim>\<open>\d\<close>, \<^verbatim>\<open>\w\<close>,
  the line terminators (which \<^verbatim>\<open>.\<close> excludes and the \<^verbatim>\<open>m\<close> flag looks for),
  and \<^verbatim>\<open>\s\<close>, which is also the set that \<^verbatim>\<open>trim()\<close> strips.
\<close>

definition is_digit :: "codeunit \<Rightarrow> bool" where
  "is_digit c = (48 \<le> c \<and> c \<le> 57)"

definition is_word :: "codeunit \<Rightarrow> bool" where
  "is_word c = ((65 \<le> c \<and> c \<le> 90) \<or> (97 \<le> c \<and> c \<le> 122) \<or> is_digit c \<or> c = 95)"

definition is_line_terminator :: "codeunit \<Rightarrow> bool" where
  "is_line_terminator c = (c = 10 \<or> c = 13 \<or> c = 8232 \<or> c = 8233)"

definition is_space :: "codeunit \<Rightarrow> bool" where
  "is_space c =
     (c = 9 \<or> c = 10 \<or> c = 11 \<or> c = 12 \<or> c = 13 \<or> c = 32 \<or> c = 160 \<or> c = 5760 \<or>
      (8192 \<le> c \<and> c \<le> 8202) \<or> c = 8232 \<or> c = 8233 \<or> c = 8239 \<or> c = 8287 \<or>
      c = 12288 \<or> c = 65279)"

definition dot :: "codeunit \<Rightarrow> bool" where
  "dot c = (\<not> is_line_terminator c)"

definition any :: "codeunit \<Rightarrow> bool" where
  "any c = True"

text \<open>Characters that an Isabelle string literal cannot hold, by their code.\<close>

definition dquote :: codeunit where "dquote = 34"
definition squote :: codeunit where "squote = 39"
definition backslash :: codeunit where "backslash = 92"
definition backtick :: codeunit where "backtick = 96"
definition newline :: codeunit where "newline = 10"

text \<open>
  The canonical form that the \<^verbatim>\<open>i\<close> flag compares: upper case.  The patterns of the
  source hold ASCII letters only, and a code unit from 128 on never has an ASCII canonical
  form, so the case mapping is needed on the ASCII letters only.
\<close>

definition canon :: "codeunit \<Rightarrow> codeunit" where
  "canon c = (if 97 \<le> c \<and> c \<le> 122 then c - 32 else c)"

subsection \<open>Backtracking matchers\<close>

text \<open>
  A match object: \<^verbatim>\<open>m[0]\<close> and the capture groups \<^verbatim>\<open>m[1]\<close>, \<^verbatim>\<open>m[2]\<close>, ...; a
  group that took no part in the match is \<^verbatim>\<open>undefined\<close>, here \<open>None\<close>.
\<close>

type_synonym rmatch = "jsstring \<times> jsstring option list"

text \<open>
  The pieces of a regular expression are matchers in continuation-passing style, as in
  the language definition: a matcher takes the continuation that matches the rest of the
  pattern and the input at the current position, and backtracks into its alternatives when
  the continuation fails.  A quantifier hands the text it consumed to its continuation
  (a capture group around it binds it).  All quantifiers of the source apply to a single
  character class.
\<close>

definition lit :: "string \<Rightarrow> (jsstring \<Rightarrow> 'a option) \<Rightarrow> jsstring \<Rightarrow> 'a option" where
  "lit p k s = (if take (length p) s = js p then k (drop (length p) s) else None)"

definition lit_i :: "string \<Rightarrow> (jsstring \<Rightarrow> 'a option) \<Rightarrow> jsstring \<Rightarrow> 'a option" where
  "lit_i p k s =
     (if map canon (take (length p) s) = map canon (js p) then k (drop (length p) s) else None)"

definition cls :: "(codeunit \<Rightarrow> bool) \<Rightarrow> (jsstring \<Rightarrow> 'a option) \<Rightarrow> jsstring \<Rightarrow> 'a option" where
  "cls P k s = (case s of [] \<Rightarrow> None | c # cs \<Rightarrow> if P c then k cs else None)"

fun greedy ::
  "(codeunit \<Rightarrow> bool) \<Rightarrow> jsstring \<Rightarrow> (jsstring \<Rightarrow> jsstring \<Rightarrow> 'a option) \<Rightarrow> jsstring \<Rightarrow> 'a option" where
  "greedy P acc k [] = k acc []"
| "greedy P acc k (c # cs) =
     (if P c
      then (case greedy P (acc @ [c]) k cs of Some r \<Rightarrow> Some r | None \<Rightarrow> k acc (c # cs))
      else k acc (c # cs))"

fun greedy_upto ::
  "nat \<Rightarrow> (codeunit \<Rightarrow> bool) \<Rightarrow> jsstring \<Rightarrow> (jsstring \<Rightarrow> jsstring \<Rightarrow> 'a option) \<Rightarrow> jsstring \<Rightarrow> 'a option" where
  "greedy_upto 0 P acc k s = k acc s"
| "greedy_upto (Suc n) P acc k [] = k acc []"
| "greedy_upto (Suc n) P acc k (c # cs) =
     (if P c
      then (case greedy_upto n P (acc @ [c]) k cs of Some r \<Rightarrow> Some r | None \<Rightarrow> k acc (c # cs))
      else k acc (c # cs))"

fun lazy ::
  "(codeunit \<Rightarrow> bool) \<Rightarrow> jsstring \<Rightarrow> (jsstring \<Rightarrow> jsstring \<Rightarrow> 'a option) \<Rightarrow> jsstring \<Rightarrow> 'a option" where
  "lazy P acc k [] = k acc []"
| "lazy P acc k (c # cs) =
     (case k acc (c # cs) of
        Some r \<Rightarrow> Some r
      | None \<Rightarrow> if P c then lazy P (acc @ [c]) k cs else None)"

text \<open>\<^verbatim>\<open>X*\<close>, \<^verbatim>\<open>X+\<close>, \<^verbatim>\<open>X?\<close>, \<^verbatim>\<open>X{1,n}\<close>, \<^verbatim>\<open>X*?\<close>, \<^verbatim>\<open>X+?\<close> and \<^verbatim>\<open>$\<close>.\<close>

definition star_greedy ::
  "(codeunit \<Rightarrow> bool) \<Rightarrow> (jsstring \<Rightarrow> jsstring \<Rightarrow> 'a option) \<Rightarrow> jsstring \<Rightarrow> 'a option" where
  "star_greedy P k s = greedy P [] k s"

definition plus_greedy ::
  "(codeunit \<Rightarrow> bool) \<Rightarrow> (jsstring \<Rightarrow> jsstring \<Rightarrow> 'a option) \<Rightarrow> jsstring \<Rightarrow> 'a option" where
  "plus_greedy P k s = (case s of [] \<Rightarrow> None | c # cs \<Rightarrow> if P c then greedy P [c] k cs else None)"

definition opt_greedy ::
  "(codeunit \<Rightarrow> bool) \<Rightarrow> (jsstring \<Rightarrow> jsstring \<Rightarrow> 'a option) \<Rightarrow> jsstring \<Rightarrow> 'a option" where
  "opt_greedy P k s = greedy_upto 1 P [] k s"

definition one_upto ::
  "nat \<Rightarrow> (codeunit \<Rightarrow> bool) \<Rightarrow> (jsstring \<Rightarrow> jsstring \<Rightarrow> 'a option) \<Rightarrow> jsstring \<Rightarrow> 'a option" where
  "one_upto n P k s =
     (case s of [] \<Rightarrow> None | c # cs \<Rightarrow> if P c then greedy_upto (n - 1) P [c] k cs else None)"

definition star_lazy ::
  "(codeunit \<Rightarrow> bool) \<Rightarrow> (jsstring \<Rightarrow> jsstring \<Rightarrow> 'a option) \<Rightarrow> jsstring \<Rightarrow> 'a option" where
  "star_lazy P k s = lazy P [] k s"

definition plus_lazy ::
  "(codeunit \<Rightarrow> bool) \<Rightarrow> (jsstring \<Rightarrow> jsstring \<Rightarrow> 'a option) \<Rightarrow> jsstring \<Rightarrow> 'a option" where
  "plus_lazy P k s = (case s of [] \<Rightarrow> None | c # cs \<Rightarrow> if P c then lazy P [c] k cs else None)"

definition eos :: "(jsstring \<Rightarrow> 'a option) \<Rightarrow> jsstring \<Rightarrow> 'a option" where
  "eos k s = (if s = [] then k s else None)"

definition alt :: "(jsstring \<Rightarrow> 'a option) \<Rightarrow> (jsstring \<Rightarrow> 'a option) \<Rightarrow> jsstring \<Rightarrow> 'a option" where
  "alt a b s = (case a s of Some r \<Rightarrow> Some r | None \<Rightarrow> b s)"

text \<open>
  The end of a pattern: the match object of a match that began at the start of \<open>s\<close> and
  left \<open>rest\<close> unread.
\<close>

definition accept :: "jsstring \<Rightarrow> jsstring option list \<Rightarrow> jsstring \<Rightarrow> rmatch option" where
  "accept s groups rest = Some (take (length s - length rest) s, groups)"

text \<open>\<^verbatim>\<open>m[i]\<close>, and the string a group holds (the empty string for \<^verbatim>\<open>undefined\<close>).\<close>

definition grp :: "rmatch \<Rightarrow> nat \<Rightarrow> jsstring option" where
  "grp m i =
     (if i = 0 then Some (fst m)
      else if i \<le> length (snd m) then snd m ! (i - 1) else None)"

definition str :: "jsstring option \<Rightarrow> jsstring" where
  "str x = (case x of None \<Rightarrow> [] | Some s \<Rightarrow> s)"

text \<open>\<^verbatim>\<open>a || b\<close> on strings: \<open>a\<close> unless it is undefined or empty.\<close>

definition js_or :: "jsstring option \<Rightarrow> jsstring option \<Rightarrow> jsstring option" where
  "js_or a b = (case a of None \<Rightarrow> b | Some s \<Rightarrow> if s = [] then b else Some s)"

subsection \<open>The segment tree\<close>

text \<open>
  \<^verbatim>\<open>interface CommentSegment { type; content: string | CommentSegment[]; url?; level?;
  username?; }\<close>.  The selector of \<^verbatim>\<open>type\<close> is called \<open>type_s\<close>.
\<close>

datatype seg_type =
    T_text | T_spoiler | T_image | T_link | T_bold | T_italic | T_strike | T_heading | T_hr
  | T_blockquote | T_inline_code | T_code_block | T_br | T_center | T_youtube | T_video
  | T_user_link

datatype segment =
  Segment (type_s: seg_type) (content: seg_content) (url: "jsstring option")
    (level: "nat option") (username: "jsstring option")
and seg_content = Str jsstring | Segs "segment list"

subsection \<open>The inline rules\<close>

text \<open>
  What a rule's \<^verbatim>\<open>process\<close> returns.  Where the source calls \<^verbatim>\<open>parseInline\<close> on a
  group, the result holds the group (\<open>P_inline\<close>) and the parser makes the call; a
  \<open>p_type\<close> is the \<^verbatim>\<open>type\<close> key that the object spread lets override the rule's.
\<close>

datatype pcontent = P_str jsstring | P_inline jsstring

record processed =
  p_type :: "seg_type option"
  p_content :: pcontent
  p_url :: "jsstring option"
  p_level :: "nat option"
  p_username :: "jsstring option"

record rule =
  rtype :: seg_type
  regex :: "jsstring \<Rightarrow> rmatch option"
  process :: "rmatch \<Rightarrow> processed"

definition only_content :: "pcontent \<Rightarrow> processed" where
  "only_content c =
     \<lparr>p_type = None, p_content = c, p_url = None, p_level = None, p_username = None\<rparr>"

text \<open>\<^verbatim>\<open>/^@([\w-]+)/\<close>\<close>

definition rx_user_link :: "jsstring \<Rightarrow> rmatch option" where
  "rx_user_link s =
     lit ''@'' (plus_greedy (\<lambda>c. is_word c \<or> c = ch CHR ''-'') (\<lambda>g1. accept s [Some g1])) s"

text \<open>\<^verbatim>\<open>/^<a\s+href="([^"]+)"[^>]*>\s*<img\s+src="([^"]+)"[^>]*>\s*<\/a>/i\<close>\<close>

definition rx_a_img :: "jsstring \<Rightarrow> rmatch option" where
  "rx_a_img s =
     lit_i ''<a'' (plus_greedy is_space (\<lambda>_. lit_i ''href='' (cls (\<lambda>c. c = dquote)
       (plus_greedy (\<lambda>c. c \<noteq> dquote) (\<lambda>g1. cls (\<lambda>c. c = dquote)
       (star_greedy (\<lambda>c. c \<noteq> ch CHR ''>'') (\<lambda>_. lit ''>''
       (star_greedy is_space (\<lambda>_. lit_i ''<img''
       (plus_greedy is_space (\<lambda>_. lit_i ''src='' (cls (\<lambda>c. c = dquote)
       (plus_greedy (\<lambda>c. c \<noteq> dquote) (\<lambda>g2. cls (\<lambda>c. c = dquote)
       (star_greedy (\<lambda>c. c \<noteq> ch CHR ''>'') (\<lambda>_. lit ''>''
       (star_greedy is_space (\<lambda>_. lit_i ''</a>''
       (accept s [Some g1, Some g2]))))))))))))))))))) s"

text \<open>\<^verbatim>\<open>/^<img\s+src="([^"]+)"[^>]*>/i\<close>\<close>

definition rx_img_tag :: "jsstring \<Rightarrow> rmatch option" where
  "rx_img_tag s =
     lit_i ''<img'' (plus_greedy is_space (\<lambda>_. lit_i ''src='' (cls (\<lambda>c. c = dquote)
       (plus_greedy (\<lambda>c. c \<noteq> dquote) (\<lambda>g1. cls (\<lambda>c. c = dquote)
       (star_greedy (\<lambda>c. c \<noteq> ch CHR ''>'') (\<lambda>_. lit ''>''
       (accept s [Some g1])))))))) s"

text \<open>\<^verbatim>\<open>/^<b>([\s\S]*?)<\/b>/i\<close>\<close>

definition rx_b_tag :: "jsstring \<Rightarrow> rmatch option" where
  "rx_b_tag s = lit_i ''<b>'' (star_lazy any (\<lambda>g1. lit_i ''</b>'' (accept s [Some g1]))) s"

text \<open>\<^verbatim>\<open>/^<a\s+href="([^"]+)"[^>]*>([\s\S]*?)<\/a>/i\<close>\<close>

definition rx_a_tag :: "jsstring \<Rightarrow> rmatch option" where
  "rx_a_tag s =
     lit_i ''<a'' (plus_greedy is_space (\<lambda>_. lit_i ''href='' (cls (\<lambda>c. c = dquote)
       (plus_greedy (\<lambda>c. c \<noteq> dquote) (\<lambda>g1. cls (\<lambda>c. c = dquote)
       (star_greedy (\<lambda>c. c \<noteq> ch CHR ''>'') (\<lambda>_. lit ''>''
       (star_lazy any (\<lambda>g2. lit_i ''</a>''
       (accept s [Some g1, Some g2])))))))))) s"

text \<open>\<^verbatim>\<open>/^img(\d*)\((.*?)\)/\<close>\<close>

definition rx_img_embed :: "jsstring \<Rightarrow> rmatch option" where
  "rx_img_embed s =
     lit ''img'' (star_greedy is_digit (\<lambda>g1. lit ''(''
       (star_lazy dot (\<lambda>g2. lit '')'' (accept s [Some g1, Some g2]))))) s"

text \<open>\<^verbatim>\<open>/^youtube\(([^)]+)\)/\<close>\<close>

definition rx_youtube :: "jsstring \<Rightarrow> rmatch option" where
  "rx_youtube s =
     lit ''youtube('' (plus_greedy (\<lambda>c. c \<noteq> ch CHR '')'') (\<lambda>g1. lit '')''
       (accept s [Some g1]))) s"

text \<open>\<^verbatim>\<open>/^video\(([^)]+)\)/\<close>\<close>

definition rx_video :: "jsstring \<Rightarrow> rmatch option" where
  "rx_video s =
     lit ''video('' (plus_greedy (\<lambda>c. c \<noteq> ch CHR '')'') (\<lambda>g1. lit '')''
       (accept s [Some g1]))) s"

text \<open>\<^verbatim>\<open>/^\[([^\]]+)\]\(([^)]+)\)/\<close>\<close>

definition rx_md_link :: "jsstring \<Rightarrow> rmatch option" where
  "rx_md_link s =
     lit ''['' (plus_greedy (\<lambda>c. c \<noteq> ch CHR '']'') (\<lambda>g1. lit ''](''
       (plus_greedy (\<lambda>c. c \<noteq> ch CHR '')'') (\<lambda>g2. lit '')''
       (accept s [Some g1, Some g2]))))) s"

text \<open>\<^verbatim>\<open>/^\*\*([\s\S]+?)\*\*|^\_\_([\s\S]+?)\_\_/\<close>\<close>

definition rx_bold :: "jsstring \<Rightarrow> rmatch option" where
  "rx_bold s =
     alt (lit ''**'' (plus_lazy any (\<lambda>g1. lit ''**'' (accept s [Some g1, None]))))
         (lit ''__'' (plus_lazy any (\<lambda>g2. lit ''__'' (accept s [None, Some g2])))) s"

text \<open>\<^verbatim>\<open>/^\*([\s\S]+?)\*|^\_([\s\S]+?)\_/\<close>\<close>

definition rx_italic :: "jsstring \<Rightarrow> rmatch option" where
  "rx_italic s =
     alt (lit ''*'' (plus_lazy any (\<lambda>g1. lit ''*'' (accept s [Some g1, None]))))
         (lit ''_'' (plus_lazy any (\<lambda>g2. lit ''_'' (accept s [None, Some g2])))) s"

text \<open>\<^verbatim>\<open>/^~~([\s\S]+?)~~/\<close>\<close>

definition rx_strike :: "jsstring \<Rightarrow> rmatch option" where
  "rx_strike s = lit ''~~'' (plus_lazy any (\<lambda>g1. lit ''~~'' (accept s [Some g1]))) s"

text \<open>\<^verbatim>\<open>/^!~([\s\S]+?)!~/\<close> and \<^verbatim>\<open>/^~!([\s\S]+?)!~/\<close>\<close>

definition rx_spoiler_bang :: "jsstring \<Rightarrow> rmatch option" where
  "rx_spoiler_bang s = lit ''!~'' (plus_lazy any (\<lambda>g1. lit ''!~'' (accept s [Some g1]))) s"

definition rx_spoiler_tilde :: "jsstring \<Rightarrow> rmatch option" where
  "rx_spoiler_tilde s = lit ''~!'' (plus_lazy any (\<lambda>g1. lit ''!~'' (accept s [Some g1]))) s"

text \<open>\<^verbatim>\<open>/^`([^`]+?)`/\<close>\<close>

definition rx_inline_code :: "jsstring \<Rightarrow> rmatch option" where
  "rx_inline_code s =
     cls (\<lambda>c. c = backtick) (plus_lazy (\<lambda>c. c \<noteq> backtick) (\<lambda>g1. cls (\<lambda>c. c = backtick)
       (accept s [Some g1]))) s"

text \<open>\<^verbatim>\<open>/^(https?:\/\/[^\s<>"'{}|\\^`[\]]+)/\<close>; the group is the whole match.\<close>

definition url_char :: "codeunit \<Rightarrow> bool" where
  "url_char c =
     (\<not> (is_space c \<or> c \<in> set (js ''<>{}|^[]'') \<or> c = dquote \<or> c = squote \<or>
         c = backslash \<or> c = backtick))"

definition rx_url :: "jsstring \<Rightarrow> rmatch option" where
  "rx_url s =
     lit ''http'' (opt_greedy (\<lambda>c. c = ch CHR ''s'') (\<lambda>_. lit ''://''
       (plus_greedy url_char (\<lambda>_ rest.
          Some (take (length s - length rest) s, [Some (take (length s - length rest) s)]))))) s"

text \<open>The rule table, in the order of the source.\<close>

definition inlineRules :: "rule list" where
  "inlineRules =
    [\<lparr>rtype = T_user_link, regex = rx_user_link,
      process = (\<lambda>m. \<lparr>p_type = None, p_content = P_str (str (grp m 0)), p_url = None,
                       p_level = None, p_username = grp m 1\<rparr>)\<rparr>,
     \<lparr>rtype = T_image, regex = rx_a_img,
      process = (\<lambda>m. \<lparr>p_type = None, p_content = P_str (str (grp m 2)), p_url = grp m 1,
                       p_level = None, p_username = None\<rparr>)\<rparr>,
     \<lparr>rtype = T_image, regex = rx_img_tag,
      process = (\<lambda>m. only_content (P_str (str (grp m 1))))\<rparr>,
     \<lparr>rtype = T_bold, regex = rx_b_tag,
      process = (\<lambda>m. only_content (P_inline (str (grp m 1))))\<rparr>,
     \<lparr>rtype = T_link, regex = rx_a_tag,
      process = (\<lambda>m. \<lparr>p_type = None, p_content = P_inline (str (grp m 2)), p_url = grp m 1,
                       p_level = None, p_username = None\<rparr>)\<rparr>,
     \<lparr>rtype = T_image, regex = rx_img_embed,
      process = (\<lambda>m. only_content (P_str (str (grp m 2))))\<rparr>,
     \<lparr>rtype = T_youtube, regex = rx_youtube,
      process = (\<lambda>m. \<lparr>p_type = Some T_link,
                       p_content = P_str (js ''youtube.com/watch?v='' @ str (grp m 1)),
                       p_url = Some (js ''https://www.youtube.com/watch?v='' @ str (grp m 1)),
                       p_level = None, p_username = None\<rparr>)\<rparr>,
     \<lparr>rtype = T_video, regex = rx_video,
      process = (\<lambda>m. \<lparr>p_type = Some T_link, p_content = P_str (str (grp m 1)),
                       p_url = grp m 1, p_level = None, p_username = None\<rparr>)\<rparr>,
     \<lparr>rtype = T_link, regex = rx_md_link,
      process = (\<lambda>m. \<lparr>p_type = None, p_content = P_str (str (grp m 1)), p_url = grp m 2,
                       p_level = None, p_username = None\<rparr>)\<rparr>,
     \<lparr>rtype = T_bold, regex = rx_bold,
      process = (\<lambda>m. only_content (P_inline (str (js_or (grp m 1) (grp m 2)))))\<rparr>,
     \<lparr>rtype = T_italic, regex = rx_italic,
      process = (\<lambda>m. only_content (P_inline (str (js_or (grp m 1) (grp m 2)))))\<rparr>,
     \<lparr>rtype = T_strike, regex = rx_strike,
      process = (\<lambda>m. only_content (P_inline (str (grp m 1))))\<rparr>,
     \<lparr>rtype = T_spoiler, regex = rx_spoiler_bang,
      process = (\<lambda>m. only_content (P_inline (str (grp m 1))))\<rparr>,
     \<lparr>rtype = T_spoiler, regex = rx_spoiler_tilde,
      process = (\<lambda>m. only_content (P_inline (str (grp m 1))))\<rparr>,
     \<lparr>rtype = T_inline_code, regex = rx_inline_code,
      process = (\<lambda>m. only_content (P_str (str (grp m 1))))\<rparr>,
     \<lparr>rtype = T_link, regex = rx_url,
      process = (\<lambda>m. \<lparr>p_type = None, p_content = P_str (str (grp m 1)), p_url = grp m 1,
                       p_level = None, p_username = None\<rparr>)\<rparr>]"

text \<open>
  \<^verbatim>\<open>for (const rule of rules) { const match = text.match(rule.regex); if (match) { ...; break; } }\<close>
\<close>

fun first_match :: "rule list \<Rightarrow> jsstring \<Rightarrow> (rule \<times> rmatch) option" where
  "first_match [] text = None"
| "first_match (r # rs) text =
     (case regex r text of Some m \<Rightarrow> Some (r, m) | None \<Rightarrow> first_match rs text)"

text \<open>
  The scan for the next special character,
  \<^verbatim>\<open>/(@[\w-]+|\[|!~|~!|https?:\/\/|`|\*\*|\*|__|_|~~|img\(|youtube\(|video\(|<[a|img|b])/\<close>:
  \<open>token_at\<close> says whether the pattern matches at the start of its argument, and
  \<open>search\<close> is \<^verbatim>\<open>String.prototype.search\<close>, the index of the first position where
  it does (\<open>None\<close> for \<open>-1\<close>).
\<close>

definition token_at :: "jsstring \<Rightarrow> bool" where
  "token_at s =
     (lit ''@'' (plus_greedy (\<lambda>c. is_word c \<or> c = ch CHR ''-'') (\<lambda>_ _. Some ())) s \<noteq> None \<or>
      lit ''['' (\<lambda>_. Some ()) s \<noteq> None \<or>
      lit ''!~'' (\<lambda>_. Some ()) s \<noteq> None \<or>
      lit ''~!'' (\<lambda>_. Some ()) s \<noteq> None \<or>
      lit ''http'' (opt_greedy (\<lambda>c. c = ch CHR ''s'') (\<lambda>_. lit ''://'' (\<lambda>_. Some ()))) s \<noteq> None \<or>
      cls (\<lambda>c. c = backtick) (\<lambda>_. Some ()) s \<noteq> None \<or>
      lit ''**'' (\<lambda>_. Some ()) s \<noteq> None \<or>
      lit ''*'' (\<lambda>_. Some ()) s \<noteq> None \<or>
      lit ''__'' (\<lambda>_. Some ()) s \<noteq> None \<or>
      lit ''_'' (\<lambda>_. Some ()) s \<noteq> None \<or>
      lit ''~~'' (\<lambda>_. Some ()) s \<noteq> None \<or>
      lit ''img('' (\<lambda>_. Some ()) s \<noteq> None \<or>
      lit ''youtube('' (\<lambda>_. Some ()) s \<noteq> None \<or>
      lit ''video('' (\<lambda>_. Some ()) s \<noteq> None \<or>
      lit ''<'' (cls (\<lambda>c. c \<in> set (js ''a|img|b'')) (\<lambda>_. Some ())) s \<noteq> None)"

fun search_from :: "nat \<Rightarrow> jsstring \<Rightarrow> nat option" where
  "search_from i [] = (if token_at [] then Some i else None)"
| "search_from i (c # cs) = (if token_at (c # cs) then Some i else search_from (Suc i) cs)"

definition search :: "jsstring \<Rightarrow> nat option" where
  "search text = search_from 0 text"

text \<open>
  The plain text of an iteration in which no rule matched:
  \<^verbatim>\<open>text.slice(0, plainTextEnd > 0 ? plainTextEnd : 1)\<close>.
\<close>

definition plain_text :: "jsstring \<Rightarrow> jsstring" where
  "plain_text text =
     (let nextTokenIndex = search text;
          plainTextEnd = (case nextTokenIndex of None \<Rightarrow> length text | Some i \<Rightarrow> i)
      in take (if plainTextEnd > 0 then plainTextEnd else 1) text)"

text \<open>
  Appending plain text: to the content of the last segment when that is a text segment
  (the source updates the object in place), as a new text segment otherwise.
\<close>

definition push_text :: "segment list \<Rightarrow> jsstring \<Rightarrow> segment list" where
  "push_text segments plainText =
     (if segments \<noteq> [] \<and> type_s (last segments) = T_text
      then butlast segments @
           [case last segments of
              Segment t c u l n \<Rightarrow>
                Segment t (case c of Str s \<Rightarrow> Str (s @ plainText) | Segs x \<Rightarrow> Segs x) u l n]
      else segments @ [Segment T_text (Str plainText) None None None])"

subsection \<open>What a successful match looks like\<close>

text \<open>
  Each matcher, when it succeeds, has split its input into the text it consumed and the
  rest, and its continuation has succeeded on the rest.
\<close>

lemma length_js [simp]: "length (js p) = length p"
  by (simp add: js_def)

lemma js_Nil [simp]: "js p = [] \<longleftrightarrow> p = []"
  by (simp add: js_def)

lemma lit_Some: "lit p k s = Some r \<Longrightarrow> \<exists>s'. s = js p @ s' \<and> k s' = Some r"
  by (auto simp: lit_def split: if_splits) (metis append_take_drop_id)

lemma lit_i_Some:
  "lit_i p k s = Some r \<Longrightarrow> \<exists>a s'. s = a @ s' \<and> length a = length p \<and> k s' = Some r"
proof -
  assume a: "lit_i p k s = Some r"
  then have m: "map canon (take (length p) s) = map canon (js p)" and k: "k (drop (length p) s) = Some r"
    by (auto simp: lit_i_def split: if_splits)
  from m have "length (take (length p) s) = length p"
    using map_eq_imp_length_eq by fastforce
  then show ?thesis using k by (metis append_take_drop_id)
qed

lemma cls_Some: "cls P k s = Some r \<Longrightarrow> \<exists>c s'. s = c # s' \<and> P c \<and> k s' = Some r"
  by (auto simp: cls_def split: list.splits if_splits)

lemma greedy_Some:
  "greedy P acc k s = Some r \<Longrightarrow>
   \<exists>a s'. s = a @ s' \<and> (\<forall>c \<in> set a. P c) \<and> k (acc @ a) s' = Some r"
proof (induction s arbitrary: acc)
  case Nil
  then show ?case by simp
next
  case (Cons c cs)
  show ?case
  proof (cases "P c \<and> greedy P (acc @ [c]) k cs \<noteq> None")
    case True
    then have "greedy P (acc @ [c]) k cs = Some r" using Cons.prems by auto
    from Cons.IH[OF this] obtain a s' where "cs = a @ s'" "\<forall>x \<in> set a. P x" "k ((acc @ [c]) @ a) s' = Some r"
      by blast
    then have "c # cs = (c # a) @ s' \<and> (\<forall>x \<in> set (c # a). P x) \<and> k (acc @ (c # a)) s' = Some r"
      using True by simp
    then show ?thesis by blast
  next
    case False
    then have "k (acc @ []) (c # cs) = Some r" using Cons.prems by (auto split: if_splits option.splits)
    then show ?thesis by (metis append_Nil empty_iff list.set(1))
  qed
qed

lemma greedy_upto_Some:
  "greedy_upto n P acc k s = Some r \<Longrightarrow>
   \<exists>a s'. s = a @ s' \<and> (\<forall>c \<in> set a. P c) \<and> length a \<le> n \<and> k (acc @ a) s' = Some r"
proof (induction n P acc k s rule: greedy_upto.induct)
  case (1 P acc k s)
  then show ?case by simp
next
  case (2 n P acc k)
  then show ?case by simp
next
  case (3 n P acc k c cs)
  show ?case
  proof (cases "P c \<and> greedy_upto n P (acc @ [c]) k cs \<noteq> None")
    case True
    then have "greedy_upto n P (acc @ [c]) k cs = Some r" using 3(2) by auto
    from 3(1)[OF _ this] True obtain a s' where
      "cs = a @ s'" "\<forall>x \<in> set a. P x" "length a \<le> n" "k ((acc @ [c]) @ a) s' = Some r"
      by blast
    then have "c # cs = (c # a) @ s' \<and> (\<forall>x \<in> set (c # a). P x) \<and> length (c # a) \<le> Suc n \<and>
               k (acc @ (c # a)) s' = Some r"
      using True by simp
    then show ?thesis by blast
  next
    case False
    then have "k (acc @ []) (c # cs) = Some r" using 3(2) by (auto split: if_splits option.splits)
    then show ?thesis by (metis append_Nil empty_iff list.set(1) list.size(3) zero_le)
  qed
qed

lemma lazy_Some:
  "lazy P acc k s = Some r \<Longrightarrow>
   \<exists>a s'. s = a @ s' \<and> (\<forall>c \<in> set a. P c) \<and> k (acc @ a) s' = Some r"
proof (induction s arbitrary: acc)
  case Nil
  then show ?case by simp
next
  case (Cons c cs)
  show ?case
  proof (cases "k acc (c # cs)")
    case (Some r')
    then have "k (acc @ []) (c # cs) = Some r" using Cons.prems by simp
    then show ?thesis by (metis append_Nil empty_iff list.set(1))
  next
    case None
    then have pc: "P c" and "lazy P (acc @ [c]) k cs = Some r" using Cons.prems by (auto split: if_splits)
    from Cons.IH[OF this(2)] obtain a s' where "cs = a @ s'" "\<forall>x \<in> set a. P x" "k ((acc @ [c]) @ a) s' = Some r"
      by blast
    then have "c # cs = (c # a) @ s' \<and> (\<forall>x \<in> set (c # a). P x) \<and> k (acc @ (c # a)) s' = Some r"
      using pc by simp
    then show ?thesis by blast
  qed
qed

lemma star_greedy_Some:
  "star_greedy P k s = Some r \<Longrightarrow> \<exists>a s'. s = a @ s' \<and> (\<forall>c \<in> set a. P c) \<and> k a s' = Some r"
  unfolding star_greedy_def using greedy_Some[of P "[]" k s r] by simp

lemma star_lazy_Some:
  "star_lazy P k s = Some r \<Longrightarrow> \<exists>a s'. s = a @ s' \<and> (\<forall>c \<in> set a. P c) \<and> k a s' = Some r"
  unfolding star_lazy_def using lazy_Some[of P "[]" k s r] by simp

lemma opt_greedy_Some:
  "opt_greedy P k s = Some r \<Longrightarrow> \<exists>a s'. s = a @ s' \<and> (\<forall>c \<in> set a. P c) \<and> length a \<le> 1 \<and> k a s' = Some r"
  unfolding opt_greedy_def using greedy_upto_Some[of 1 P "[]" k s r] by simp

lemma plus_greedy_Some:
  "plus_greedy P k s = Some r \<Longrightarrow>
   \<exists>a s'. s = a @ s' \<and> a \<noteq> [] \<and> (\<forall>c \<in> set a. P c) \<and> k a s' = Some r"
proof -
  assume a: "plus_greedy P k s = Some r"
  then obtain c cs where s: "s = c # cs" "P c" "greedy P [c] k cs = Some r"
    by (auto simp: plus_greedy_def split: list.splits if_splits)
  from greedy_Some[OF s(3)] obtain b s' where "cs = b @ s'" "\<forall>x \<in> set b. P x" "k ([c] @ b) s' = Some r"
    by blast
  then have "s = (c # b) @ s' \<and> c # b \<noteq> [] \<and> (\<forall>x \<in> set (c # b). P x) \<and> k (c # b) s' = Some r"
    using s by simp
  then show ?thesis by blast
qed

lemma plus_lazy_Some:
  "plus_lazy P k s = Some r \<Longrightarrow>
   \<exists>a s'. s = a @ s' \<and> a \<noteq> [] \<and> (\<forall>c \<in> set a. P c) \<and> k a s' = Some r"
proof -
  assume a: "plus_lazy P k s = Some r"
  then obtain c cs where s: "s = c # cs" "P c" "lazy P [c] k cs = Some r"
    by (auto simp: plus_lazy_def split: list.splits if_splits)
  from lazy_Some[OF s(3)] obtain b s' where "cs = b @ s'" "\<forall>x \<in> set b. P x" "k ([c] @ b) s' = Some r"
    by blast
  then have "s = (c # b) @ s' \<and> c # b \<noteq> [] \<and> (\<forall>x \<in> set (c # b). P x) \<and> k (c # b) s' = Some r"
    using s by simp
  then show ?thesis by blast
qed

lemma one_upto_Some:
  "one_upto n P k s = Some r \<Longrightarrow>
   \<exists>a s'. s = a @ s' \<and> a \<noteq> [] \<and> (\<forall>c \<in> set a. P c) \<and> length a \<le> Suc (n - 1) \<and> k a s' = Some r"
proof -
  assume a: "one_upto n P k s = Some r"
  then obtain c cs where s: "s = c # cs" "P c" "greedy_upto (n - 1) P [c] k cs = Some r"
    by (auto simp: one_upto_def split: list.splits if_splits)
  from greedy_upto_Some[OF s(3)] obtain b s' where
    "cs = b @ s'" "\<forall>x \<in> set b. P x" "length b \<le> n - 1" "k ([c] @ b) s' = Some r"
    by blast
  then have "s = (c # b) @ s' \<and> c # b \<noteq> [] \<and> (\<forall>x \<in> set (c # b). P x) \<and>
     length (c # b) \<le> Suc (n - 1) \<and> k (c # b) s' = Some r"
    using s by simp
  then show ?thesis by blast
qed

lemma eos_Some: "eos k s = Some r \<Longrightarrow> s = [] \<and> k [] = Some r"
  by (auto simp: eos_def split: if_splits)

lemma alt_Some: "alt a b s = Some r \<Longrightarrow> a s = Some r \<or> b s = Some r"
  by (auto simp: alt_def split: option.splits)

lemma litE: assumes "lit p k s = Some r" obtains s' where "s = js p @ s'" "k s' = Some r"
  using lit_Some[OF assms] by blast

lemma lit_iE: assumes "lit_i p k s = Some r" obtains a s' where "s = a @ s'" "length a = length p" "k s' = Some r"
  using lit_i_Some[OF assms] by blast

lemma clsE: assumes "cls P k s = Some r" obtains c s' where "s = c # s'" "P c" "k s' = Some r"
  using cls_Some[OF assms] by blast

lemma star_greedyE: assumes "star_greedy P k s = Some r"
  obtains a s' where "s = a @ s'" "\<forall>c \<in> set a. P c" "k a s' = Some r"
  using star_greedy_Some[OF assms] by blast

lemma star_lazyE: assumes "star_lazy P k s = Some r"
  obtains a s' where "s = a @ s'" "\<forall>c \<in> set a. P c" "k a s' = Some r"
  using star_lazy_Some[OF assms] by blast

lemma opt_greedyE: assumes "opt_greedy P k s = Some r"
  obtains a s' where "s = a @ s'" "\<forall>c \<in> set a. P c" "length a \<le> 1" "k a s' = Some r"
  using opt_greedy_Some[OF assms] by blast

lemma plus_greedyE: assumes "plus_greedy P k s = Some r"
  obtains a s' where "s = a @ s'" "a \<noteq> []" "\<forall>c \<in> set a. P c" "k a s' = Some r"
  using plus_greedy_Some[OF assms] by blast

lemma plus_lazyE: assumes "plus_lazy P k s = Some r"
  obtains a s' where "s = a @ s'" "a \<noteq> []" "\<forall>c \<in> set a. P c" "k a s' = Some r"
  using plus_lazy_Some[OF assms] by blast

lemma one_uptoE: assumes "one_upto n P k s = Some r"
  obtains a s' where "s = a @ s'" "a \<noteq> []" "\<forall>c \<in> set a. P c" "length a \<le> Suc (n - 1)" "k a s' = Some r"
  using one_upto_Some[OF assms] by blast

lemma eosE: assumes "eos k s = Some r" obtains "s = []" "k [] = Some r"
  using eos_Some[OF assms] by blast

lemma altE: assumes "alt a b s = Some r" obtains "a s = Some r" | "b s = Some r"
  using alt_Some[OF assms] by blast

lemma acceptE: assumes "accept s gs rest = Some r" obtains "r = (take (length s - length rest) s, gs)"
  using assms by (auto simp: accept_def)

lemmas rxE = litE lit_iE clsE star_greedyE star_lazyE opt_greedyE plus_greedyE plus_lazyE
  one_uptoE eosE altE acceptE

text \<open>
  A match of an inline rule is not empty, and each of its groups is shorter than the input.
\<close>

definition good_match :: "jsstring \<Rightarrow> rmatch \<Rightarrow> bool" where
  "good_match s m =
     (fst m \<noteq> [] \<and> s \<noteq> [] \<and> (\<forall>x. Some x \<in> set (snd m) \<longrightarrow> length x < length s))"

lemma good_match_grp:
  assumes g: "good_match s m" and i: "0 < i"
  shows "length (str (grp m i)) < length s"
proof (cases "grp m i")
  case None
  then show ?thesis using g by (simp add: str_def good_match_def)
next
  case (Some a)
  from Some i have "i \<le> length (snd m)" and "snd m ! (i - 1) = Some a"
    by (auto simp: grp_def split: if_splits)
  then have "Some a \<in> set (snd m)"
    by (metis Suc_pred' i less_eq_Suc_le nth_mem)
  then show ?thesis using g Some by (simp add: str_def good_match_def)
qed

lemma good_match_or:
  "good_match s m \<Longrightarrow> 0 < i \<Longrightarrow> 0 < j \<Longrightarrow> length (str (js_or (grp m i) (grp m j))) < length s"
  using good_match_grp[of s m i] good_match_grp[of s m j]
  by (auto simp: js_or_def split: option.splits)

lemma rx_user_link_good: "rx_user_link s = Some m \<Longrightarrow> good_match s m"
  unfolding rx_user_link_def by (elim rxE) (auto simp: good_match_def)

lemma rx_a_img_good: "rx_a_img s = Some m \<Longrightarrow> good_match s m"
  unfolding rx_a_img_def by (elim rxE) (auto simp: good_match_def)

lemma rx_img_tag_good: "rx_img_tag s = Some m \<Longrightarrow> good_match s m"
  unfolding rx_img_tag_def by (elim rxE) (auto simp: good_match_def)

lemma rx_b_tag_good: "rx_b_tag s = Some m \<Longrightarrow> good_match s m"
  unfolding rx_b_tag_def by (elim rxE) (auto simp: good_match_def)

lemma rx_a_tag_good: "rx_a_tag s = Some m \<Longrightarrow> good_match s m"
  unfolding rx_a_tag_def by (elim rxE) (auto simp: good_match_def)

lemma rx_img_embed_good: "rx_img_embed s = Some m \<Longrightarrow> good_match s m"
  unfolding rx_img_embed_def by (elim rxE) (auto simp: good_match_def)

lemma rx_youtube_good: "rx_youtube s = Some m \<Longrightarrow> good_match s m"
  unfolding rx_youtube_def by (elim rxE) (auto simp: good_match_def)

lemma rx_video_good: "rx_video s = Some m \<Longrightarrow> good_match s m"
  unfolding rx_video_def by (elim rxE) (auto simp: good_match_def)

lemma rx_md_link_good: "rx_md_link s = Some m \<Longrightarrow> good_match s m"
  unfolding rx_md_link_def by (elim rxE) (auto simp: good_match_def)

lemma rx_bold_good: "rx_bold s = Some m \<Longrightarrow> good_match s m"
  unfolding rx_bold_def by (elim rxE) (auto simp: good_match_def)

lemma rx_italic_good: "rx_italic s = Some m \<Longrightarrow> good_match s m"
  unfolding rx_italic_def by (elim rxE) (auto simp: good_match_def)

lemma rx_strike_good: "rx_strike s = Some m \<Longrightarrow> good_match s m"
  unfolding rx_strike_def by (elim rxE) (auto simp: good_match_def)

lemma rx_spoiler_bang_good: "rx_spoiler_bang s = Some m \<Longrightarrow> good_match s m"
  unfolding rx_spoiler_bang_def by (elim rxE) (auto simp: good_match_def)

lemma rx_spoiler_tilde_good: "rx_spoiler_tilde s = Some m \<Longrightarrow> good_match s m"
  unfolding rx_spoiler_tilde_def by (elim rxE) (auto simp: good_match_def)

lemma rx_inline_code_good: "rx_inline_code s = Some m \<Longrightarrow> good_match s m"
  unfolding rx_inline_code_def by (elim rxE) (auto simp: good_match_def)

lemma rx_url_nonempty: "rx_url s = Some m \<Longrightarrow> fst m \<noteq> []"
  unfolding rx_url_def by (elim rxE) auto

lemmas rx_good = rx_user_link_good rx_a_img_good rx_img_tag_good rx_b_tag_good rx_a_tag_good
  rx_img_embed_good rx_youtube_good rx_video_good rx_md_link_good rx_bold_good rx_italic_good
  rx_strike_good rx_spoiler_bang_good rx_spoiler_tilde_good rx_inline_code_good

lemma inline_match_progress:
  assumes "first_match inlineRules text = Some (r, m)"
  shows "fst m \<noteq> []"
    and "p_content (process r m) = P_inline g \<Longrightarrow> length g < length text"
proof -
  have "(rx_url text = Some m \<and> (\<forall>g. p_content (process r m) \<noteq> P_inline g)) \<or>
        (good_match text m \<and>
         (\<forall>g. p_content (process r m) = P_inline g \<longrightarrow>
            g = str (grp m 1) \<or> g = str (grp m 2) \<or> g = str (js_or (grp m 1) (grp m 2))))"
    using assms unfolding inlineRules_def
    by (auto simp: only_content_def split: option.splits dest: rx_good)
  then show "fst m \<noteq> []"
    and "p_content (process r m) = P_inline g \<Longrightarrow> length g < length text"
    using rx_url_nonempty[of _ m] good_match_grp[of _ m 1] good_match_grp[of _ m 2]
      good_match_or[of _ m 1 2]
    by (auto simp: good_match_def)
qed

lemma plain_text_nonempty: "text \<noteq> [] \<Longrightarrow> plain_text text \<noteq> []"
  by (auto simp: plain_text_def Let_def split: option.splits)

lemma plain_text_progress:
  "text \<noteq> [] \<Longrightarrow> length text - length (plain_text text) < length text"
  using plain_text_nonempty by (cases "text") auto

subsection \<open>parseInline\<close>

function parseInline :: "jsstring \<Rightarrow> segment list"
  and inline_loop :: "jsstring \<Rightarrow> segment list \<Rightarrow> segment list" where
  "parseInline line = (if line = [] then [] else inline_loop line [])"
| "inline_loop text segments =
     (if length text > 0
      then (case first_match inlineRules text of
              Some (rule, m) \<Rightarrow>
                inline_loop (drop (length (fst m)) text)
                  (segments @
                   [Segment (case p_type (process rule m) of None \<Rightarrow> rtype rule | Some t \<Rightarrow> t)
                      (case p_content (process rule m) of
                         P_str s \<Rightarrow> Str s
                       | P_inline g \<Rightarrow> Segs (parseInline g))
                      (p_url (process rule m)) (p_level (process rule m))
                      (p_username (process rule m))])
            | None \<Rightarrow>
                inline_loop (drop (length (plain_text text)) text)
                  (push_text segments (plain_text text)))
      else segments)"
  by pat_completeness auto
termination
proof (relation "measure (\<lambda>x. case x of Inl line \<Rightarrow> 2 * length line + 1
                                         | Inr (text, segments) \<Rightarrow> 2 * length text)")
qed (auto dest: inline_match_progress simp: plain_text_progress)

text \<open>
  \<^verbatim>\<open>{ type: rule.type, ...rule.process(match) }\<close>, with the calls of
  \<^verbatim>\<open>parseInline\<close> that \<^verbatim>\<open>process\<close> makes.
\<close>

definition resolve :: "pcontent \<Rightarrow> seg_content" where
  "resolve c = (case c of P_str s \<Rightarrow> Str s | P_inline g \<Rightarrow> Segs (parseInline g))"

definition build :: "rule \<Rightarrow> rmatch \<Rightarrow> segment" where
  "build rule m =
     Segment (case p_type (process rule m) of None \<Rightarrow> rtype rule | Some t \<Rightarrow> t)
       (resolve (p_content (process rule m)))
       (p_url (process rule m)) (p_level (process rule m)) (p_username (process rule m))"

subsection \<open>Line rules\<close>

text \<open>\<^verbatim>\<open>/^#<center>(.*)/\<close>\<close>

definition rx_center_line :: "jsstring \<Rightarrow> rmatch option" where
  "rx_center_line s = lit ''#<center>'' (star_greedy dot (\<lambda>g1. accept s [Some g1])) s"

text \<open>\<^verbatim>\<open>/^(#{1,5})\s+(.*)/\<close>\<close>

definition rx_heading :: "jsstring \<Rightarrow> rmatch option" where
  "rx_heading s =
     one_upto 5 (\<lambda>c. c = ch CHR ''#'') (\<lambda>g1. plus_greedy is_space (\<lambda>_.
       star_greedy dot (\<lambda>g2. accept s [Some g1, Some g2]))) s"

text \<open>\<^verbatim>\<open>/^>\s?(.*)/\<close>\<close>

definition rx_blockquote :: "jsstring \<Rightarrow> rmatch option" where
  "rx_blockquote s =
     lit ''>'' (opt_greedy is_space (\<lambda>_. star_greedy dot (\<lambda>g1. accept s [Some g1]))) s"

text \<open>\<^verbatim>\<open>/^---\s*$/\<close>\<close>

definition rx_hr :: "jsstring \<Rightarrow> rmatch option" where
  "rx_hr s = lit ''---'' (star_greedy is_space (\<lambda>_. eos (accept s []))) s"

definition lineStartRules :: "rule list" where
  "lineStartRules =
    [\<lparr>rtype = T_center, regex = rx_center_line,
      process = (\<lambda>m. only_content (P_inline (str (grp m 1))))\<rparr>,
     \<lparr>rtype = T_heading, regex = rx_heading,
      process = (\<lambda>m. \<lparr>p_type = None, p_content = P_inline (str (grp m 2)), p_url = None,
                       p_level = Some (length (str (grp m 1))), p_username = None\<rparr>)\<rparr>,
     \<lparr>rtype = T_blockquote, regex = rx_blockquote,
      process = (\<lambda>m. only_content (P_inline (str (grp m 1))))\<rparr>,
     \<lparr>rtype = T_hr, regex = rx_hr,
      process = (\<lambda>m. only_content (P_str []))\<rparr>]"

text \<open>
  The lone formatters, \<^verbatim>\<open>/^\*\*([\s\S]+?)\*\*$/\<close>, \<^verbatim>\<open>/^\_\_([\s\S]+?)\_\_$/\<close>,
  \<^verbatim>\<open>/^\*([\s\S]+?)\*$/\<close>, \<^verbatim>\<open>/^\_([\s\S]+?)\_$/\<close> and \<^verbatim>\<open>/^~~([\s\S]+?)~~$/\<close>.
  Their \<^verbatim>\<open>process\<close> is \<^verbatim>\<open>parseInline(m[1])\<close>.
\<close>

definition rx_lone :: "string \<Rightarrow> jsstring \<Rightarrow> rmatch option" where
  "rx_lone marker s =
     lit marker (plus_lazy any (\<lambda>g1. lit marker (eos (accept s [Some g1])))) s"

definition loneFormatterRules :: "rule list" where
  "loneFormatterRules =
    [\<lparr>rtype = T_bold, regex = rx_lone ''**'',
      process = (\<lambda>m. only_content (P_inline (str (grp m 1))))\<rparr>,
     \<lparr>rtype = T_bold, regex = rx_lone ''__'',
      process = (\<lambda>m. only_content (P_inline (str (grp m 1))))\<rparr>,
     \<lparr>rtype = T_italic, regex = rx_lone ''*'',
      process = (\<lambda>m. only_content (P_inline (str (grp m 1))))\<rparr>,
     \<lparr>rtype = T_italic, regex = rx_lone ''_'',
      process = (\<lambda>m. only_content (P_inline (str (grp m 1))))\<rparr>,
     \<lparr>rtype = T_strike, regex = rx_lone ''~~'',
      process = (\<lambda>m. only_content (P_inline (str (grp m 1))))\<rparr>]"

text \<open>\<^verbatim>\<open>String.prototype.trim\<close> and \<^verbatim>\<open>split('\n')\<close>.\<close>

definition trim :: "jsstring \<Rightarrow> jsstring" where
  "trim s = rev (dropWhile is_space (rev (dropWhile is_space s)))"

fun split_lines :: "jsstring \<Rightarrow> jsstring list" where
  "split_lines [] = [[]]"
| "split_lines (c # cs) =
     (if c = newline then [] # split_lines cs
      else (case split_lines cs of [] \<Rightarrow> [[c]] | l # ls \<Rightarrow> (c # l) # ls))"

definition br :: segment where
  "br = Segment T_br (Str []) None None None"

text \<open>
  The loop over the lines of a plain-text block; \<open>rest \<noteq> []\<close> is the test
  \<^verbatim>\<open>i < lines.length - 1\<close>.  The result is what the iteration pushes on
  \<^verbatim>\<open>resultSegments\<close>.
\<close>

fun parse_lines :: "jsstring list \<Rightarrow> segment list" where
  "parse_lines [] = []"
| "parse_lines (line # rest) =
     (if line = [] \<and> rest \<noteq> [] then br # parse_lines rest
      else
        (case first_match loneFormatterRules (trim line) of
           Some (rule, m) \<Rightarrow>
             Segment T_center (resolve (p_content (process rule m))) None None None
               # (if rest \<noteq> [] then [br] else []) @ parse_lines rest
         | None \<Rightarrow>
             (case first_match lineStartRules line of
                Some (rule, m) \<Rightarrow> [build rule m]
              | None \<Rightarrow> if line \<noteq> [] then parseInline line else [])
             @ (if rest \<noteq> [] then [br] else []) @ parse_lines rest))"

subsection \<open>The entity decoder\<close>

datatype error = RangeError

text \<open>
  \<^verbatim>\<open>parseInt(dec, 10)\<close> on a string of digits, and \<^verbatim>\<open>String.fromCodePoint\<close>, which
  throws a \<^verbatim>\<open>RangeError\<close> above \<^verbatim>\<open>0x10FFFF\<close> and gives a surrogate pair from
  \<^verbatim>\<open>0x10000\<close> on.  (The value of \<^verbatim>\<open>parseInt\<close> is a double; rounding is monotone and
  starts far above \<^verbatim>\<open>0x10FFFF\<close>, so the comparison is the one on the exact number.)
\<close>

definition parseInt10 :: "jsstring \<Rightarrow> nat" where
  "parseInt10 dec = foldl (\<lambda>n c. 10 * n + (c - 48)) 0 dec"

definition fromCodePoint :: "nat \<Rightarrow> error + jsstring" where
  "fromCodePoint n =
     (if n > 1114111 then Inl RangeError
      else if n < 65536 then Inr [n]
      else Inr [55296 + (n - 65536) div 1024, 56320 + (n - 65536) mod 1024])"

text \<open>\<^verbatim>\<open>/&#(\d+);/\<close>, tried at the start of \<open>s\<close>.\<close>

definition rx_numeric :: "jsstring \<Rightarrow> rmatch option" where
  "rx_numeric s = lit ''&#'' (plus_greedy is_digit (\<lambda>g1. lit '';'' (accept s [Some g1]))) s"

lemma rx_numeric_good: "rx_numeric s = Some m \<Longrightarrow> good_match s m \<and> 4 \<le> length (fst m)"
  unfolding rx_numeric_def by (elim rxE) (auto simp: good_match_def Suc_le_eq)

text \<open>
  \<^verbatim>\<open>text.replace(/&#(\d+);/g, (match, dec) => String.fromCodePoint(parseInt(dec, 10)))\<close>:
  the matches are replaced from left to right, and the scan goes on after each match.
\<close>

function replace_numeric :: "jsstring \<Rightarrow> error + jsstring" where
  "replace_numeric [] = Inr []"
| "replace_numeric (c # cs) =
     (case rx_numeric (c # cs) of
        Some m \<Rightarrow>
          (case fromCodePoint (parseInt10 (str (grp m 1))) of
             Inl e \<Rightarrow> Inl e
           | Inr r \<Rightarrow>
               (case replace_numeric (drop (length (fst m)) (c # cs)) of
                  Inl e \<Rightarrow> Inl e
                | Inr t \<Rightarrow> Inr (r @ t)))
      | None \<Rightarrow>
          (case replace_numeric cs of Inl e \<Rightarrow> Inl e | Inr t \<Rightarrow> Inr (c # t)))"
  by pat_completeness auto
termination
proof (relation "measure length")
qed (auto dest!: rx_numeric_good simp: good_match_def)

text \<open>
  \<^verbatim>\<open>s.replace(/p/g, r)\<close> for a pattern \<open>p\<close> that is a literal string.
\<close>

function replace_lit :: "string \<Rightarrow> jsstring \<Rightarrow> jsstring \<Rightarrow> jsstring" where
  "replace_lit p r [] = []"
| "replace_lit p r (c # cs) =
     (if p \<noteq> [] \<and> take (length p) (c # cs) = js p
      then r @ replace_lit p r (drop (length p) (c # cs))
      else c # replace_lit p r cs)"
  by pat_completeness auto
termination
  by (relation "measure (\<lambda>(p, r, s). length s)") (auto simp: neq_Nil_conv)

definition decodeHtmlEntities :: "jsstring \<Rightarrow> error + jsstring" where
  "decodeHtmlEntities text =
     (if text = [] then Inr []
      else (case replace_numeric text of
              Inl e \<Rightarrow> Inl e
            | Inr t \<Rightarrow>
                Inr (replace_lit ''>'' (js ''>'')
                      (replace_lit ''<'' (js ''<'') (replace_lit ''&'' (js ''&'') t)))))"

subsection \<open>The block splitter\<close>

text \<open>
  An entry of \<^verbatim>\<open>blocks\<close>: a string, or an object with a type and the raw content
  of the block.  (The source parses the content of a spoiler block while it splits and
  that of a center block in its last loop; parsing has no effect besides its result, and
  the model makes both calls in the last loop.)
\<close>

datatype block = B_text jsstring | B_obj seg_type jsstring

definition accept_f ::
  "jsstring \<Rightarrow> (jsstring \<Rightarrow> jsstring option list) \<Rightarrow> jsstring \<Rightarrow> rmatch option" where
  "accept_f s f rest = Some (take (length s - length rest) s, f (take (length s - length rest) s))"

text \<open>
  \<^verbatim>\<open>/(^```([\s\S]*?)```)|(^~~~([\s\S]*?)~~~)|(^~!([\s\S]*?)!~)/gm\<close> tried at one
  position; \<open>bol\<close> says whether \<^verbatim>\<open>^\<close> holds there (the start of the text, or just
  after a line terminator).
\<close>

definition rx_multiline :: "bool \<Rightarrow> jsstring \<Rightarrow> rmatch option" where
  "rx_multiline bol s =
     (if \<not> bol then None
      else
        alt (lit ''```'' (star_lazy any (\<lambda>g2. lit ''```''
               (accept_f s (\<lambda>m0. [Some m0, Some g2, None, None, None, None])))))
       (alt (lit ''~~~'' (star_lazy any (\<lambda>g4. lit ''~~~''
               (accept_f s (\<lambda>m0. [None, None, Some m0, Some g4, None, None])))))
            (lit ''~!'' (star_lazy any (\<lambda>g6. lit ''!~''
               (accept_f s (\<lambda>m0. [None, None, None, None, Some m0, Some g6])))))) s)"

text \<open>
  \<^verbatim>\<open>multilineRegex.exec(remainingText)\<close> with the regex's \<^verbatim>\<open>lastIndex\<close>: the first
  position from \<open>lastIndex\<close> on where the pattern matches, with the match.
\<close>

fun exec_from :: "nat \<Rightarrow> bool \<Rightarrow> jsstring \<Rightarrow> (nat \<times> rmatch) option" where
  "exec_from i bol [] = (case rx_multiline bol [] of Some m \<Rightarrow> Some (i, m) | None \<Rightarrow> None)"
| "exec_from i bol (c # cs) =
     (case rx_multiline bol (c # cs) of
        Some m \<Rightarrow> Some (i, m)
      | None \<Rightarrow> exec_from (Suc i) (is_line_terminator c) cs)"

definition exec_multiline :: "jsstring \<Rightarrow> nat \<Rightarrow> (nat \<times> rmatch) option" where
  "exec_multiline remainingText lastIndex =
     exec_from lastIndex
       (lastIndex = 0 \<or> is_line_terminator (remainingText ! (lastIndex - 1)))
       (drop lastIndex remainingText)"

definition block_of :: "rmatch \<Rightarrow> block list" where
  "block_of m =
     (case grp m 2 of
        Some c \<Rightarrow> [B_obj T_code_block c]
      | None \<Rightarrow>
          (case grp m 4 of
             Some c \<Rightarrow> [B_obj T_center c]
           | None \<Rightarrow> (case grp m 6 of Some c \<Rightarrow> [B_obj T_spoiler c] | None \<Rightarrow> [])))"

definition substring :: "jsstring \<Rightarrow> nat \<Rightarrow> nat \<Rightarrow> jsstring" where
  "substring s a b = take (b - a) (drop a s)"

lemma rx_multiline_shape:
  assumes "rx_multiline bol s = Some m"
  shows "bol \<and> (\<exists>t c opn clo rest. s = js opn @ c @ js clo @ rest \<and> fst m = js opn @ c @ js clo \<and>
           block_of m = [B_obj t c] \<and>
           ((opn = ''```'' \<and> clo = ''```'' \<and> t = T_code_block) \<or>
            (opn = ''~~~'' \<and> clo = ''~~~'' \<and> t = T_center) \<or>
            (opn = ''~!'' \<and> clo = ''!~'' \<and> t = T_spoiler)))"
proof -
  have bol: bol using assms by (auto simp: rx_multiline_def split: if_splits)
  have "alt (lit ''```'' (star_lazy any (\<lambda>g2. lit ''```''
               (accept_f s (\<lambda>m0. [Some m0, Some g2, None, None, None, None])))))
       (alt (lit ''~~~'' (star_lazy any (\<lambda>g4. lit ''~~~''
               (accept_f s (\<lambda>m0. [None, None, Some m0, Some g4, None, None])))))
            (lit ''~!'' (star_lazy any (\<lambda>g6. lit ''!~''
               (accept_f s (\<lambda>m0. [None, None, None, None, Some m0, Some g6])))))) s = Some m"
    using assms bol by (simp add: rx_multiline_def)
  then have "\<exists>t c opn clo rest. s = js opn @ c @ js clo @ rest \<and> fst m = js opn @ c @ js clo \<and>
           block_of m = [B_obj t c] \<and>
           ((opn = ''```'' \<and> clo = ''```'' \<and> t = T_code_block) \<or>
            (opn = ''~~~'' \<and> clo = ''~~~'' \<and> t = T_center) \<or>
            (opn = ''~!'' \<and> clo = ''!~'' \<and> t = T_spoiler))"
  proof (elim rxE)
    fix s' a s'a s'b
    assume "s = js ''```'' @ s'" "s' = a @ s'a" "s'a = js ''```'' @ s'b"
      "accept_f s (\<lambda>m0. [Some m0, Some a, None, None, None, None]) s'b = Some m"
    then have "s = js ''```'' @ a @ js ''```'' @ s'b \<and> fst m = js ''```'' @ a @ js ''```'' \<and>
       block_of m = [B_obj T_code_block a]"
      by (auto simp: accept_f_def block_of_def grp_def)
    then show ?thesis by blast
  next
    fix s' a s'a s'b
    assume "s = js ''~~~'' @ s'" "s' = a @ s'a" "s'a = js ''~~~'' @ s'b"
      "accept_f s (\<lambda>m0. [None, None, Some m0, Some a, None, None]) s'b = Some m"
    then have "s = js ''~~~'' @ a @ js ''~~~'' @ s'b \<and> fst m = js ''~~~'' @ a @ js ''~~~'' \<and>
       block_of m = [B_obj T_center a]"
      by (auto simp: accept_f_def block_of_def grp_def)
    then show ?thesis by blast
  next
    fix s' a s'a s'b
    assume "s = js ''~!'' @ s'" "s' = a @ s'a" "s'a = js ''!~'' @ s'b"
      "accept_f s (\<lambda>m0. [None, None, None, None, Some m0, Some a]) s'b = Some m"
    then have "s = js ''~!'' @ a @ js ''!~'' @ s'b \<and> fst m = js ''~!'' @ a @ js ''!~'' \<and>
       block_of m = [B_obj T_spoiler a]"
      by (auto simp: accept_f_def block_of_def grp_def)
    then show ?thesis by blast
  qed
  then show ?thesis using bol by simp
qed

lemma rx_multiline_length:
  assumes "rx_multiline bol s = Some m"
  shows "0 < length (fst m)" and "length (fst m) \<le> length s"
    and "\<exists>t c. block_of m = [B_obj t c] \<and> length c < length (fst m)"
  using rx_multiline_shape[OF assms] by auto

lemma exec_from_good:
  "exec_from i bol s = Some (index, m) \<Longrightarrow>
   i \<le> index \<and> index + length (fst m) \<le> i + length s \<and>
   (\<exists>b. rx_multiline b (drop (index - i) s) = Some m)"
proof (induction i bol s rule: exec_from.induct)
  case (1 i bol)
  then show ?case using rx_multiline_length(2)[of bol "[]" m]
    by (auto split: option.splits)
next
  case (2 i bol c cs)
  show ?case
  proof (cases "rx_multiline bol (c # cs)")
    case None
    then have e: "exec_from (Suc i) (is_line_terminator c) cs = Some (index, m)"
      using 2(2) by simp
    from 2(1)[OF None e] obtain b where
      "Suc i \<le> index" "index + length (fst m) \<le> Suc i + length cs"
      "rx_multiline b (drop (index - Suc i) cs) = Some m" by blast
    moreover have "index - i = Suc (index - Suc i)"
      using \<open>Suc i \<le> index\<close> by arith
    then have "drop (index - i) (c # cs) = drop (index - Suc i) cs"
      by simp
    ultimately show ?thesis by auto
  next
    case (Some m')
    then have "index = i" "m' = m" using 2(2) by auto
    then show ?thesis using Some rx_multiline_length(2)[of bol "c # cs" m] by auto
  qed
qed

lemma exec_multiline_good:
  assumes "exec_multiline s lastIndex = Some (index, m)"
  shows "lastIndex \<le> index" and "0 < length (fst m)" and "index + length (fst m) \<le> length s"
    and "\<exists>t c. block_of m = [B_obj t c] \<and> length c < length (fst m)"
proof -
  let ?bol = "lastIndex = 0 \<or> is_line_terminator (s ! (lastIndex - 1))"
  have e: "exec_from lastIndex ?bol (drop lastIndex s) = Some (index, m)"
    using assms by (simp add: exec_multiline_def)
  from exec_from_good[OF e] obtain b where
    g: "lastIndex \<le> index" "index + length (fst m) \<le> lastIndex + length (drop lastIndex s)"
       "rx_multiline b (drop (index - lastIndex) (drop lastIndex s)) = Some m" by blast
  show "lastIndex \<le> index" by (rule g(1))
  show p: "0 < length (fst m)" by (rule rx_multiline_length(1)[OF g(3)])
  show "\<exists>t c. block_of m = [B_obj t c] \<and> length c < length (fst m)"
    by (rule rx_multiline_length(3)[OF g(3)])
  show "index + length (fst m) \<le> length s"
    using g(1,2) p by (cases "lastIndex \<le> length s") auto
qed

function split_blocks :: "jsstring \<Rightarrow> nat \<Rightarrow> block list \<Rightarrow> block list" where
  "split_blocks remainingText lastIndex blocks =
     (case exec_multiline remainingText lastIndex of
        Some (index, m) \<Rightarrow>
          split_blocks remainingText (index + length (fst m))
            ((if index > lastIndex
              then blocks @ [B_text (substring remainingText lastIndex index)]
              else blocks) @ block_of m)
      | None \<Rightarrow>
          (if lastIndex < length remainingText
           then blocks @ [B_text (drop lastIndex remainingText)]
           else blocks))"
  by pat_completeness auto
termination
proof (relation "measure (\<lambda>(s, lastIndex, blocks). length s - lastIndex)")
  show "wf (measure (\<lambda>(s, lastIndex, blocks). length s - lastIndex))" by simp
next
  fix remainingText :: jsstring and lastIndex :: nat and blocks :: "block list"
    and x2 :: "nat \<times> rmatch" and index :: nat and m :: rmatch
  assume "exec_multiline remainingText lastIndex = Some x2" "(index, m) = x2"
  then have e: "exec_multiline remainingText lastIndex = Some (index, m)" by simp
  show "((remainingText, index + length (fst m),
          (if lastIndex < index
           then blocks @ [B_text (substring remainingText lastIndex index)]
           else blocks) @ block_of m),
         remainingText, lastIndex, blocks)
        \<in> measure (\<lambda>(s, lastIndex, blocks). length s - lastIndex)"
  proof -
    from exec_multiline_good(1,2,3)[OF e]
    have "length remainingText - (index + length (fst m)) < length remainingText - lastIndex"
      by linarith
    then show ?thesis by simp
  qed
qed

subsection \<open>parseComment\<close>

text \<open>
  The recursion of \<^verbatim>\<open>parseComment\<close> ends because decoding never makes the text longer
  and the content of a block is shorter than the text it was cut from.
\<close>

lemma split_blocks_obj:
  "B_obj t c \<in> set (split_blocks s i blocks) \<Longrightarrow>
   B_obj t c \<in> set blocks \<or> length c < length s"
proof (induction s i blocks rule: split_blocks.induct)
  case (1 remainingText lastIndex blocks)
  show ?case
  proof (cases "exec_multiline remainingText lastIndex")
    case None
    then show ?thesis using 1(2) by (subst (asm) split_blocks.simps) (auto split: if_splits)
  next
    case (Some im)
    obtain index m where im: "im = (index, m)" by (cases im)
    from exec_multiline_good[OF Some[unfolded im]] obtain t' c' where
      b: "block_of m = [B_obj t' c']" "length c' < length (fst m)"
      and l: "index + length (fst m) \<le> length remainingText"
      by blast
    let ?bl = "(if index > lastIndex
              then blocks @ [B_text (substring remainingText lastIndex index)]
              else blocks) @ block_of m"
    have "B_obj t c \<in> set (split_blocks remainingText (index + length (fst m)) ?bl)"
      using 1(2) Some im by (subst (asm) split_blocks.simps) simp
    from 1(1)[OF Some[unfolded im] refl this]
    show ?thesis using b l by (auto split: if_splits)
  qed
qed

lemma replace_lit_length:
  "length r \<le> length p \<Longrightarrow> length (replace_lit p r s) \<le> length s"
proof (induction p r s rule: replace_lit.induct)
  case (1 p r)
  then show ?case by simp
next
  case (2 p r c cs)
  show ?case
  proof (cases "p \<noteq> [] \<and> take (length p) (c # cs) = js p")
    case True
    then have "length (take (length p) (c # cs)) = length p"
      by simp
    then have "length p \<le> length (c # cs)"
      by (simp del: take_Suc_Cons)
    then show ?thesis using 2 True by auto
  next
    case False
    then show ?thesis using 2 by auto
  qed
qed

lemma fromCodePoint_length: "fromCodePoint n = Inr r \<Longrightarrow> length r \<le> 2"
  by (auto simp: fromCodePoint_def split: if_splits)

lemma replace_numeric_length: "replace_numeric s = Inr t \<Longrightarrow> length t \<le> length s"
proof (induction s arbitrary: t rule: replace_numeric.induct)
  case 1
  then show ?case by simp
next
  case (2 c cs)
  show ?case
  proof (cases "rx_numeric (c # cs)")
    case None
    then show ?thesis using 2(1)[OF None] 2(3) by (auto split: sum.splits)
  next
    case (Some m)
    from rx_numeric_good[OF Some] have 4: "4 \<le> length (fst m)" by simp
    have le: "length (fst m) \<le> length (c # cs)"
      using Some unfolding rx_numeric_def by (elim rxE) auto
    from 2(3) Some obtain r t' where
      r: "fromCodePoint (parseInt10 (str (grp m 1))) = Inr r"
      and t': "replace_numeric (drop (length (fst m)) (c # cs)) = Inr t'" and t: "t = r @ t'"
      by (auto split: sum.splits)
    from 2(2)[OF Some r t'] have "length t' \<le> length (c # cs) - length (fst m)" by simp
    then show ?thesis using fromCodePoint_length[OF r] 4 le t by simp
  qed
qed

lemma decodeHtmlEntities_length: "decodeHtmlEntities s = Inr t \<Longrightarrow> length t \<le> length s"
proof -
  assume a: "decodeHtmlEntities s = Inr t"
  show ?thesis
  proof (cases "s = []")
    case True
    then show ?thesis using a by (simp add: decodeHtmlEntities_def)
  next
    case False
    then obtain u where u: "replace_numeric s = Inr u"
      and t: "t = replace_lit ''>'' (js ''>'') (replace_lit ''<'' (js ''<'') (replace_lit ''&'' (js ''&'') u))"
      using a by (auto simp: decodeHtmlEntities_def split: sum.splits)
    have "length (replace_lit ''&'' (js ''&'') u) \<le> length u"
      by (rule replace_lit_length) simp
    moreover have "length (replace_lit ''<'' (js ''<'') (replace_lit ''&'' (js ''&'') u))
        \<le> length (replace_lit ''&'' (js ''&'') u)"
      by (rule replace_lit_length) simp
    moreover have "length t \<le> length (replace_lit ''<'' (js ''<'') (replace_lit ''&'' (js ''&'') u))"
      unfolding t by (rule replace_lit_length) simp
    ultimately have "length t \<le> length u" by linarith
    then show ?thesis using replace_numeric_length[OF u] by simp
  qed
qed

text \<open>
  The results of the blocks in their order; the first exception, if there is one, is the
  result.
\<close>

fun collect :: "(error + segment list) list \<Rightarrow> error + segment list" where
  "collect [] = Inr []"
| "collect (x # xs) =
     (case x of
        Inl e \<Rightarrow> Inl e
      | Inr a \<Rightarrow> (case collect xs of Inl e \<Rightarrow> Inl e | Inr b \<Rightarrow> Inr (a @ b)))"

text \<open>
  \<^verbatim>\<open>parseComment\<close>: decode, split into blocks, and turn each block into segments.  A
  center block is \<^verbatim>\<open>{ type: 'center', content: parseComment(block.content) }\<close>, a spoiler
  block \<^verbatim>\<open>{ type: 'spoiler', content: parseComment(match[6]) }\<close>, a code block is pushed
  as it is, and a string is parsed line by line.  The result is \<open>Inl\<close> the exception
  when the decoder, here or in a nested call, throws.
\<close>

function parseComment :: "jsstring \<Rightarrow> error + segment list" where
  "parseComment text =
     (case decodeHtmlEntities (replace_lit ''<br>'' [newline] text) of
        Inl e \<Rightarrow> Inl e
      | Inr cleanedText \<Rightarrow>
          collect
            (map (\<lambda>block.
                    case block of
                      B_obj t c \<Rightarrow>
                        (if t = T_center
                         then (case parseComment c of
                                 Inl e \<Rightarrow> Inl e
                               | Inr segs \<Rightarrow> Inr [Segment T_center (Segs segs) None None None])
                         else if t = T_spoiler
                         then (case parseComment c of
                                 Inl e \<Rightarrow> Inl e
                               | Inr segs \<Rightarrow> Inr [Segment T_spoiler (Segs segs) None None None])
                         else Inr [Segment t (Str c) None None None])
                    | B_text b \<Rightarrow> Inr (parse_lines (split_lines b)))
               (split_blocks cleanedText 0 [])))"
  by pat_completeness auto
termination
proof (relation "measure length")
  show "wf (measure length)" by simp
next
  fix tx :: jsstring and cleanedText :: jsstring and block :: block and t :: seg_type and c :: jsstring
  assume d: "decodeHtmlEntities (replace_lit ''<br>'' [newline] tx) = Inr cleanedText"
    and b: "block \<in> set (split_blocks cleanedText 0 [])" "block = B_obj t c"
  have "length c < length cleanedText" using split_blocks_obj[of t c cleanedText 0 "[]"] b by simp
  moreover have "length cleanedText \<le> length tx"
    using decodeHtmlEntities_length[OF d] replace_lit_length[of "[newline]" "''<br>''" tx]
    by simp
  ultimately have *: "(c, tx) \<in> measure length" by simp
  show "(c, tx) \<in> measure length" by (rule *)
  show "(c, tx) \<in> measure length" by (rule *)
qed

text \<open>
  The recursive equations of the loops are used by name; the definitions that evaluate
  the parser on a concrete input are collected in \<open>ev\<close>.
\<close>

declare parseInline.simps [simp del] inline_loop.simps [simp del]
  split_blocks.simps [simp del] parseComment.simps [simp del]

lemmas ev = js_def ch_def lit_def lit_i_def cls_def star_greedy_def plus_greedy_def
  opt_greedy_def one_upto_def star_lazy_def plus_lazy_def eos_def alt_def accept_def
  accept_f_def grp_def str_def js_or_def is_digit_def is_word_def is_space_def
  is_line_terminator_def dot_def any_def canon_def dquote_def squote_def backslash_def
  backtick_def newline_def rx_numeric_def parseInt10_def fromCodePoint_def
  decodeHtmlEntities_def rx_multiline_def exec_multiline_def block_of_def substring_def
  trim_def br_def loneFormatterRules_def rx_lone_def lineStartRules_def rx_center_line_def
  rx_heading_def rx_blockquote_def rx_hr_def inlineRules_def rx_user_link_def rx_a_img_def
  rx_img_tag_def rx_b_tag_def rx_a_tag_def rx_img_embed_def rx_youtube_def rx_video_def
  rx_md_link_def rx_bold_def rx_italic_def rx_strike_def rx_spoiler_bang_def
  rx_spoiler_tilde_def rx_inline_code_def rx_url_def url_char_def only_content_def
  resolve_def build_def token_at_def search_def plain_text_def push_text_def
  parseInline.simps inline_loop.simps split_blocks.simps parseComment.simps

subsection \<open>Counting the iterations of the inline loop\<close>



subsection \<open>Plain text\<close>

text \<open>
  The characters that start, or are needed by, some construct of the markup:
  \<^verbatim>\<open>@ < [ * _ ~ ( / # > - &\<close>, the backtick and the newline.
\<close>

definition trigger_chars :: "codeunit set" where
  "trigger_chars = set (js ''@<[*_~(/#>-&'') \<union> {backtick, newline}"

definition plain :: "jsstring \<Rightarrow> bool" where
  "plain s = (\<forall>c \<in> set s. c \<notin> trigger_chars)"

subsection \<open>Code blocks\<close>



section \<open>Properties of the comment-tree mutator\<close>

subsection \<open>Identifiers of a forest\<close>

lemma ulp_small: "n < 2 ^ 53 \<Longrightarrow> ulp n = 1"
  by (subst ulp.simps) simp

lemma to_double_exact: "\<bar>x\<bar> \<le> 2 ^ 53 \<Longrightarrow> to_double x = x"
proof (cases "\<bar>x\<bar> < 2 ^ 53")
  case True
  then have "nat \<bar>x\<bar> < 2 ^ 53" by simp
  then show ?thesis by (simp add: to_double_def ulp_small)
next
  case False
  assume "\<bar>x\<bar> \<le> 2 ^ 53"
  then have x: "x = 2 ^ 53 \<or> x = - (2 ^ 53)" using False by auto
  have "ulp (2 ^ 53) = 2" by (subst ulp.simps) (simp add: ulp_small)
  then show ?thesis using x by (auto simp: to_double_def Let_def)
qed

lemma js_toggle_back:
  "\<bar>n\<bar> < 2 ^ 53 \<Longrightarrow> js_sub (js_add n 1) 1 = n \<and> js_add (js_sub n 1) 1 = n"
  by (simp add: js_add_def js_sub_def to_double_exact)


lemma tree_ids_Cons: "tree_ids (c # cs) = id_c ` set (nodes_of c) \<union> tree_ids cs"
  by (auto simp: tree_ids_def tree_nodes_def)

lemma tree_ids_Nil: "tree_ids [] = {}"
  by (simp add: tree_ids_def tree_nodes_def)

lemma nodes_of_self: "c \<in> set (nodes_of c)"
  by (cases c) simp

lemma ids_node: "id_c ` set (nodes_of (ThreadComment i c t n l u chs opt)) =
   insert i (case chs of None \<Rightarrow> {} | Some cs \<Rightarrow> tree_ids cs)"
  by (auto simp: tree_ids_def tree_nodes_def split: option.splits)

lemma tree_ids_mem: "x \<in> set cs \<Longrightarrow> id_c ` set (nodes_of x) \<subseteq> tree_ids cs"
  by (auto simp: tree_ids_def tree_nodes_def)

lemma tree_ids_top: "x \<in> set cs \<Longrightarrow> id_c x \<in> tree_ids cs"
  using tree_ids_mem nodes_of_self by blast

lemma updateComment_absent: "i \<notin> id_c ` set (nodes_of c) \<Longrightarrow> updateComment i c = c"
proof (induction i c rule: updateComment.induct)
  case (1 commentId i c t n l u chs opt)
  show ?case
  proof (cases chs)
    case None then show ?thesis using 1(2) by (simp add: ids_node del: nodes_of.simps)
  next
    case (Some cs)
    have ne: "i \<noteq> commentId" and abs: "commentId \<notin> tree_ids cs"
      using 1(2) Some by (simp_all add: ids_node del: nodes_of.simps)
    have "map (updateComment commentId) cs = cs"
    proof (rule map_idI)
      fix x assume x: "x \<in> set cs"
      then have "commentId \<notin> id_c ` set (nodes_of x)" using abs tree_ids_mem by blast
      then show "updateComment commentId x = x" using 1(1) ne Some x by simp
    qed
    then show ?thesis using Some ne by simp
  qed
qed

lemma removeComment_absent: "i \<notin> id_c ` set (nodes_of c) \<Longrightarrow> removeComment_node i c = c"
proof (induction i c rule: removeComment_node.induct)
  case (1 commentId i c t n l u chs opt)
  show ?case
  proof (cases chs)
    case None then show ?thesis by simp
  next
    case (Some cs)
    have abs: "commentId \<notin> tree_ids cs"
      using 1(2) Some by (simp_all add: ids_node del: nodes_of.simps)
    then have nid: "\<forall>x \<in> set cs. id_c x \<noteq> commentId"
      using tree_ids_top by blast
    then have f: "filter (\<lambda>c. id_c c \<noteq> commentId) cs = cs" by simp
    have "map (removeComment_node commentId) cs = cs"
    proof (rule map_idI)
      fix x assume x: "x \<in> set cs"
      then have "commentId \<notin> id_c ` set (nodes_of x)" using abs tree_ids_mem by blast
      then show "removeComment_node commentId x = x" using 1(1) Some x nid by simp
    qed
    then show ?thesis using Some f by simp
  qed
qed

lemma findAndUpdate_absent:
  "i \<notin> tree_ids t \<Longrightarrow> findAndUpdateInTree i nt t orig = (t, orig)"
  "i \<notin> id_c ` set (nodes_of c) \<Longrightarrow> findAndUpdate_node i nt c orig = (c, orig)"
proof (induct i nt t orig and i nt c orig rule: findAndUpdateInTree_findAndUpdate_node.induct)
  case (1 commentId newText originalText)
  then show ?case by simp
next
  case (2 commentId newText c cs originalText)
  then show ?case by (simp add: tree_ids_Cons)
next
  case (3 commentId newText i c t n l u chs opt originalText)
  then show ?case by (cases chs) (simp_all add: ids_node del: nodes_of.simps)
qed

text \<open>
  Claim C10.  When no node of the forest carries the identifier, the like-toggle rewrite,
  the edit rewrite and the delete removal each return the forest they were given; the edit
  rewrite also leaves the remembered original text as it was.
\<close>

theorem absent_id_noop:
  "i \<notin> tree_ids t \<Longrightarrow>
     updateCommentInTree i t = t \<and>
     findAndUpdateInTree i newText t originalText = (t, originalText) \<and>
     removeCommentFromTree i t = t"
proof -
  assume a: "i \<notin> tree_ids t"
  have n: "\<And>x. x \<in> set t \<Longrightarrow> i \<notin> id_c ` set (nodes_of x)"
    using a tree_ids_mem by blast
  have f: "filter (\<lambda>c. id_c c \<noteq> i) t = t"
    using a tree_ids_top by (auto simp: filter_id_conv)
  have 1: "updateCommentInTree i t = t"
    unfolding updateCommentInTree_def by (rule map_idI) (simp add: n updateComment_absent)
  have 3: "removeCommentFromTree i t = t"
    unfolding removeCommentFromTree_def f by (rule map_idI) (simp add: n removeComment_absent)
  show ?thesis using 1 3 findAndUpdate_absent(1)[OF a] by simp
qed

theorem absent_id_noop_witness:
  "5 \<notin> tree_ids [ThreadComment 1 (js ''a'') 10 3 False \<lparr>name = js ''u'', avatar_large = []\<rparr> (Some [ThreadComment 2 (js ''b'') 11 0 True \<lparr>name = js ''v'', avatar_large = []\<rparr> None None]) None] \<and>
   updateCommentInTree 5 [ThreadComment 1 (js ''a'') 10 3 False \<lparr>name = js ''u'', avatar_large = []\<rparr> (Some [ThreadComment 2 (js ''b'') 11 0 True \<lparr>name = js ''v'', avatar_large = []\<rparr> None None]) None] = [ThreadComment 1 (js ''a'') 10 3 False \<lparr>name = js ''u'', avatar_large = []\<rparr> (Some [ThreadComment 2 (js ''b'') 11 0 True \<lparr>name = js ''v'', avatar_large = []\<rparr> None None]) None] \<and>
   findAndUpdateInTree 5 (js ''new'') [ThreadComment 1 (js ''a'') 10 3 False \<lparr>name = js ''u'', avatar_large = []\<rparr> (Some [ThreadComment 2 (js ''b'') 11 0 True \<lparr>name = js ''v'', avatar_large = []\<rparr> None None]) None] [] = ([ThreadComment 1 (js ''a'') 10 3 False \<lparr>name = js ''u'', avatar_large = []\<rparr> (Some [ThreadComment 2 (js ''b'') 11 0 True \<lparr>name = js ''v'', avatar_large = []\<rparr> None None]) None], []) \<and>
   removeCommentFromTree 5 [ThreadComment 1 (js ''a'') 10 3 False \<lparr>name = js ''u'', avatar_large = []\<rparr> (Some [ThreadComment 2 (js ''b'') 11 0 True \<lparr>name = js ''v'', avatar_large = []\<rparr> None None]) None] = [ThreadComment 1 (js ''a'') 10 3 False \<lparr>name = js ''u'', avatar_large = []\<rparr> (Some [ThreadComment 2 (js ''b'') 11 0 True \<lparr>name = js ''v'', avatar_large = []\<rparr> None None]) None]"
proof -
  have h: "5 \<notin> tree_ids [ThreadComment 1 (js ''a'') 10 3 False \<lparr>name = js ''u'', avatar_large = []\<rparr> (Some [ThreadComment 2 (js ''b'') 11 0 True \<lparr>name = js ''v'', avatar_large = []\<rparr> None None]) None]"
    by (simp add: tree_ids_def tree_nodes_def)
  show ?thesis using h absent_id_noop [OF h] by simp
qed

subsection \<open>The like toggle is its own inverse\<close>

lemma updateComment_twice:
  "\<forall>x \<in> set (nodes_of c). id_c x = i \<longrightarrow> \<bar>likeCount x\<bar> < 2 ^ 53 \<Longrightarrow>
   updateComment i (updateComment i c) = c"
proof (induction i c rule: updateComment.induct)
  case (1 commentId i c t n l u chs opt)
  show ?case
  proof (cases "i = commentId")
    case True
    then have "\<bar>n\<bar> < 2 ^ 53" using 1(2) by simp
    then show ?thesis using True js_toggle_back[of n] by simp
  next
    case False
    show ?thesis
    proof (cases chs)
      case None
      then show ?thesis using False by simp
    next
      case (Some cs)
      have "map (updateComment commentId \<circ> updateComment commentId) cs = cs"
      proof (rule map_idI)
        fix x assume x: "x \<in> set cs"
        have "\<forall>y \<in> set (nodes_of x). id_c y = commentId \<longrightarrow> \<bar>likeCount y\<bar> < 2 ^ 53"
          using 1(2) Some x by auto
        then show "(updateComment commentId \<circ> updateComment commentId) x = x"
          using 1(1)[OF False Some x] by simp
      qed
      then show ?thesis using False Some by simp
    qed
  qed
qed

text \<open>
  Claim C3, as the code has it.  When the like count of every node that carries the
  identifier is a safe integer (below \<open>2 ^ 53\<close> in absolute value), toggling the identifier
  twice gives back the forest, so every node has its original \<open>likeCount\<close> and
  \<open>isLiked\<close> again.  On the forest with the one top-level comment
  \<open>{id: 1, likeCount: 3, isLiked: false}\<close> the first toggle gives
  \<open>{likeCount: 4, isLiked: true}\<close> and the second gives \<open>{3, false}\<close> back.
\<close>

theorem toggle_like_twice:
  "((\<forall>x \<in> set (tree_nodes t). id_c x = i \<longrightarrow> \<bar>likeCount x\<bar> < 2 ^ 53) \<longrightarrow>
      updateCommentInTree i (updateCommentInTree i t) = t) \<and>
   updateCommentInTree 1 [ThreadComment 1 c ts 3 False u chs opt] =
     [ThreadComment 1 c ts 4 True u chs opt] \<and>
   updateCommentInTree 1 [ThreadComment 1 c ts 4 True u chs opt] =
     [ThreadComment 1 c ts 3 False u chs opt]"
proof (intro conjI impI)
  assume a: "\<forall>x \<in> set (tree_nodes t). id_c x = i \<longrightarrow> \<bar>likeCount x\<bar> < 2 ^ 53"
  have "map (updateComment i \<circ> updateComment i) t = t"
  proof (rule map_idI)
    fix c assume "c \<in> set t"
    then have "\<forall>x \<in> set (nodes_of c). id_c x = i \<longrightarrow> \<bar>likeCount x\<bar> < 2 ^ 53"
      using a by (auto simp: tree_nodes_def)
    then show "(updateComment i \<circ> updateComment i) c = c"
      using updateComment_twice by simp
  qed
  then show "updateCommentInTree i (updateCommentInTree i t) = t"
    by (simp add: updateCommentInTree_def)
next
  show "updateCommentInTree 1 [ThreadComment 1 c ts 3 False u chs opt] =
     [ThreadComment 1 c ts 4 True u chs opt]"
    by (simp add: updateCommentInTree_def js_add_def to_double_exact)
next
  show "updateCommentInTree 1 [ThreadComment 1 c ts 4 True u chs opt] =
     [ThreadComment 1 c ts 3 False u chs opt]"
    by (simp add: updateCommentInTree_def js_sub_def to_double_exact)
qed

theorem toggle_like_twice_witness:
  "filter (\<lambda>x. id_c x = 2 \<and> \<not> \<bar>likeCount x\<bar> < 2 ^ 53)
     (tree_nodes [ThreadComment 1 (js ''a'') 10 3 False \<lparr>name = js ''u'', avatar_large = []\<rparr> (Some [ThreadComment 2 (js ''b'') 11 5 True \<lparr>name = js ''v'', avatar_large = []\<rparr> None None]) None]) = [] \<and>
   updateCommentInTree 2 [ThreadComment 1 (js ''a'') 10 3 False \<lparr>name = js ''u'', avatar_large = []\<rparr> (Some [ThreadComment 2 (js ''b'') 11 5 True \<lparr>name = js ''v'', avatar_large = []\<rparr> None None]) None] = [ThreadComment 1 (js ''a'') 10 3 False \<lparr>name = js ''u'', avatar_large = []\<rparr> (Some [ThreadComment 2 (js ''b'') 11 4 False \<lparr>name = js ''v'', avatar_large = []\<rparr> None None]) None] \<and>
   updateCommentInTree 2 (updateCommentInTree 2 [ThreadComment 1 (js ''a'') 10 3 False \<lparr>name = js ''u'', avatar_large = []\<rparr> (Some [ThreadComment 2 (js ''b'') 11 5 True \<lparr>name = js ''v'', avatar_large = []\<rparr> None None]) None]) = [ThreadComment 1 (js ''a'') 10 3 False \<lparr>name = js ''u'', avatar_large = []\<rparr> (Some [ThreadComment 2 (js ''b'') 11 5 True \<lparr>name = js ''v'', avatar_large = []\<rparr> None None]) None]"
proof -
  let ?t = "[ThreadComment 1 (js ''a'') 10 3 False \<lparr>name = js ''u'', avatar_large = []\<rparr> (Some [ThreadComment 2 (js ''b'') 11 5 True \<lparr>name = js ''v'', avatar_large = []\<rparr> None None]) None]"
  have h: "\<forall>x \<in> set (tree_nodes ?t). id_c x = 2 \<longrightarrow> \<bar>likeCount x\<bar> < 2 ^ 53"
    by (simp add: tree_nodes_def)
  have f: "filter (\<lambda>x. id_c x = 2 \<and> \<not> \<bar>likeCount x\<bar> < 2 ^ 53) (tree_nodes ?t) = []"
    by (simp add: tree_nodes_def)
  have o: "updateCommentInTree 2 ?t = [ThreadComment 1 (js ''a'') 10 3 False \<lparr>name = js ''u'', avatar_large = []\<rparr> (Some [ThreadComment 2 (js ''b'') 11 4 False \<lparr>name = js ''v'', avatar_large = []\<rparr> None None]) None]"
    by (simp add: updateCommentInTree_def js_sub_def to_double_exact)
  have "updateCommentInTree 2 (updateCommentInTree 2 ?t) = ?t"
    using toggle_like_twice [of ?t 2] h by blast
  then show ?thesis using f o by blast
qed

text \<open>
  The claim as the specification states it, for every comment tree, fails where the
  arithmetic on doubles rounds: from the like count \<open>2 ^ 53\<close> the first toggle adds one
  and stays at \<open>2 ^ 53\<close>, and the second subtracts one.
\<close>

theorem toggle_like_twice_counterexample:
  "updateCommentInTree 1 [ThreadComment 1 (js ''a'') 10 9007199254740992 False \<lparr>name = js ''u'', avatar_large = []\<rparr> None None] = [ThreadComment 1 (js ''a'') 10 9007199254740992 True \<lparr>name = js ''u'', avatar_large = []\<rparr> None None] \<and>
   updateCommentInTree 1 (updateCommentInTree 1 [ThreadComment 1 (js ''a'') 10 9007199254740992 False \<lparr>name = js ''u'', avatar_large = []\<rparr> None None]) =
     [ThreadComment 1 (js ''a'') 10 9007199254740991 False \<lparr>name = js ''u'', avatar_large = []\<rparr> None None] \<and>
   updateCommentInTree 1 (updateCommentInTree 1 [ThreadComment 1 (js ''a'') 10 9007199254740992 False \<lparr>name = js ''u'', avatar_large = []\<rparr> None None]) \<noteq> [ThreadComment 1 (js ''a'') 10 9007199254740992 False \<lparr>name = js ''u'', avatar_large = []\<rparr> None None]"
proof -
  have 1: "ulp 9007199254740993 = 2"
    by (subst ulp.simps) (simp add: ulp_small)
  have a: "js_add 9007199254740992 1 = 9007199254740992"
    by (simp add: js_add_def to_double_def 1)
  have s: "js_sub 9007199254740992 1 = 9007199254740991"
    by (simp add: js_sub_def to_double_exact)
  show ?thesis by (simp add: updateCommentInTree_def a s)
qed

subsection \<open>The like toggle keeps the frame\<close>

lemma kids_updateComment:
  "kids (updateComment i c) = (if id_c c = i then kids c else map (updateComment i) (kids c))"
  by (cases c) (auto simp: kids_def split: option.splits)

lemma updateComment_fields:
  "id_c (updateComment i c) = id_c c \<and> comment (updateComment i c) = comment c \<and>
   createdAt (updateComment i c) = createdAt c \<and> user (updateComment i c) = user c \<and>
   isOptimistic (updateComment i c) = isOptimistic c \<and>
   (childComments (updateComment i c) = None \<longleftrightarrow> childComments c = None) \<and>
   map id_c (kids (updateComment i c)) = map id_c (kids c) \<and>
   (id_c c \<noteq> i \<longrightarrow> likeCount (updateComment i c) = likeCount c \<and> isLiked (updateComment i c) = isLiked c) \<and>
   (id_c c = i \<longrightarrow> isLiked (updateComment i c) = (\<not> isLiked c) \<and>
       likeCount (updateComment i c) =
         (if isLiked c then js_sub (likeCount c) 1 else js_add (likeCount c) 1))"
proof (cases c)
  case (ThreadComment i' c' t n l u chs opt)
  have "\<And>cs. map (id_c \<circ> updateComment i) cs = map id_c cs"
  proof -
    fix cs :: "ThreadComment list"
    have "\<And>x. id_c (updateComment i x) = id_c x"
      subgoal for x by (cases x) (auto split: option.splits) done
    then show "map (id_c \<circ> updateComment i) cs = map id_c cs" by simp
  qed
  then show ?thesis using ThreadComment by (auto simp: kids_def split: option.splits)
qed

lemma node_at_updateComment:
  "node_at p (map (updateComment i) t) =
     (if i \<in> set (above p t) then node_at p t else map_option (updateComment i) (node_at p t))"
proof (induction p t rule: node_at.induct)
  case (1 cs)
  then show ?case by simp
next
  case (2 k cs)
  then show ?case by simp
next
  case (3 k v va cs)
  show ?case
  proof (cases "k < length cs")
    case True
    then show ?thesis using 3 by (simp add: kids_updateComment updateComment_fields)
  next
    case False
    then show ?thesis by simp
  qed
qed

text \<open>
  Claim C9.  The like toggle keeps the shape of the forest: the top-level list keeps its
  length, a position that holds no node before holds none after, and the node at any
  position keeps its id, comment text, author, creation time and optimistic flag, the
  presence of its children field and the identifiers of its children in their order.  A
  node whose id differs from the target also keeps \<open>likeCount\<close> and \<open>isLiked\<close>.
\<close>

theorem toggle_like_frame:
  "length (updateCommentInTree i t) = length t \<and>
   (case node_at p t of
      None \<Rightarrow> node_at p (updateCommentInTree i t) = None
    | Some c \<Rightarrow>
        (\<exists>c'. node_at p (updateCommentInTree i t) = Some c' \<and>
           id_c c' = id_c c \<and> comment c' = comment c \<and> user c' = user c \<and>
           createdAt c' = createdAt c \<and> isOptimistic c' = isOptimistic c \<and>
           (childComments c' = None \<longleftrightarrow> childComments c = None) \<and>
           map id_c (kids c') = map id_c (kids c) \<and>
           (id_c c \<noteq> i \<longrightarrow> likeCount c' = likeCount c \<and> isLiked c' = isLiked c)))"
proof (cases "node_at p t")
  case None
  then show ?thesis by (simp add: updateCommentInTree_def node_at_updateComment)
next
  case (Some c)
  show ?thesis
  proof (cases "i \<in> set (above p t)")
    case True
    then show ?thesis using Some by (simp add: updateCommentInTree_def node_at_updateComment)
  next
    case False
    then show ?thesis using Some updateComment_fields[of i c]
      by (simp add: updateCommentInTree_def node_at_updateComment)
  qed
qed


theorem toggle_like_frame_witness:
  "node_at [0, 0] [ThreadComment 1 (js ''a'') 10 3 False \<lparr>name = js ''u'', avatar_large = []\<rparr>
           (Some [ThreadComment 2 (js ''b'') 11 0 True \<lparr>name = js ''v'', avatar_large = []\<rparr> None None]) None]
     = Some (ThreadComment 2 (js ''b'') 11 0 True \<lparr>name = js ''v'', avatar_large = []\<rparr> None None) \<and>
   (2::int) \<noteq> 1 \<and>
   (\<exists>c'. node_at [0, 0] (updateCommentInTree 1 [ThreadComment 1 (js ''a'') 10 3 False \<lparr>name = js ''u'', avatar_large = []\<rparr>
           (Some [ThreadComment 2 (js ''b'') 11 0 True \<lparr>name = js ''v'', avatar_large = []\<rparr> None None]) None]) = Some c' \<and>
      likeCount c' = 0 \<and> isLiked c' = True)"
proof -
  let ?C = "ThreadComment 2 (js ''b'') 11 0 True \<lparr>name = js ''v'', avatar_large = []\<rparr> None None"
  let ?T = "[ThreadComment 1 (js ''a'') 10 3 False \<lparr>name = js ''u'', avatar_large = []\<rparr> (Some [?C]) None]"
  have h: "node_at [0, 0] ?T = Some ?C" by (simp add: kids_def)
  have "\<exists>c'. node_at [0, 0] (updateCommentInTree 1 ?T) = Some c' \<and>
          (id_c ?C \<noteq> 1 \<longrightarrow> likeCount c' = likeCount ?C \<and> isLiked c' = isLiked ?C)"
    using toggle_like_frame [of 1 ?T "[0, 0]"] unfolding h option.case by blast
  then show ?thesis using h by simp
qed

subsection \<open>Placement of an optimistic reply\<close>

lemma id_addReply_node: "id_c (addReply_node new p c) = id_c c"
  by (cases c) (auto split: option.splits)

lemma kids_addReply_node:
  "kids (addReply_node new p c) =
     (if id_c c = p then kids c @ [new] else map (addReply_node new p) (kids c))"
  by (cases c) (auto simp: kids_def split: option.splits)

lemma addReply_node_fields:
  "id_c (addReply_node new p c) = id_c c \<and> comment (addReply_node new p c) = comment c \<and>
   createdAt (addReply_node new p c) = createdAt c \<and> user (addReply_node new p c) = user c \<and>
   isOptimistic (addReply_node new p c) = isOptimistic c \<and>
   likeCount (addReply_node new p c) = likeCount c \<and> isLiked (addReply_node new p c) = isLiked c \<and>
   (id_c c = p \<longrightarrow> childComments (addReply_node new p c) = Some (kids c @ [new])) \<and>
   (id_c c \<noteq> p \<longrightarrow> map id_c (kids (addReply_node new p c)) = map id_c (kids c))"
  by (cases c) (auto simp: kids_def id_addReply_node split: option.splits)

lemma node_at_append: "node_at p xs = Some c \<Longrightarrow> node_at p (xs @ ys) = Some c"
  by (induction p xs rule: node_at.induct) (auto simp: nth_append split: if_splits)

lemma node_at_addReply:
  "node_at q t = Some c \<Longrightarrow>
   node_at q (map (addReply_node new p) t) =
     Some (if p \<in> set (above q t) then c else addReply_node new p c)"
proof (induction q t rule: node_at.induct)
  case (1 cs)
  then show ?case by simp
next
  case (2 k cs)
  then show ?case by (simp split: if_splits)
next
  case (3 k v va cs)
  then have k: "k < length cs" by (simp split: if_splits)
  show ?case
  proof (cases "id_c (cs ! k) = p")
    case True
    then show ?thesis using 3(2) k by (simp add: kids_addReply_node node_at_append)
  next
    case False
    then show ?thesis using 3 k by (simp add: kids_addReply_node id_addReply_node)
  qed
qed

text \<open>
  Claim C7, as the code has it.  Without a parent (an undefined parent, or the falsy id
  \<open>0\<close>) the new node becomes the first top-level node.  With a parent id other than
  \<open>0\<close> the top-level identifiers stay as they are and every node stays at its position
  with its own fields; a node that carries the parent id, and has no ancestor carrying it,
  gets the new node as its last child; a node with another id keeps the identifiers of its
  children in their order.
\<close>

theorem addReply_placement:
  "(\<not> truthy_num parentCommentId \<longrightarrow> addReply new parentCommentId t = new # t) \<and>
   (truthy_num parentCommentId \<and> node_at q t = Some c \<longrightarrow>
      map id_c (addReply new parentCommentId t) = map id_c t \<and>
      (\<exists>c'. node_at q (addReply new parentCommentId t) = Some c' \<and>
         id_c c' = id_c c \<and> comment c' = comment c \<and> user c' = user c \<and>
         createdAt c' = createdAt c \<and> isOptimistic c' = isOptimistic c \<and>
         likeCount c' = likeCount c \<and> isLiked c' = isLiked c \<and>
         (id_c c = the parentCommentId \<and> the parentCommentId \<notin> set (above q t) \<longrightarrow>
            childComments c' = Some (kids c @ [new])) \<and>
         (id_c c \<noteq> the parentCommentId \<longrightarrow> map id_c (kids c') = map id_c (kids c))))"
proof (intro conjI impI)
  assume "\<not> truthy_num parentCommentId"
  then show "addReply new parentCommentId t = new # t" by (simp add: addReply_def)
next
  assume a: "truthy_num parentCommentId \<and> node_at q t = Some c"
  then show "map id_c (addReply new parentCommentId t) = map id_c t"
    by (simp add: addReply_def addReplyToTree_def id_addReply_node)
next
  assume a: "truthy_num parentCommentId \<and> node_at q t = Some c"
  obtain p where p: "parentCommentId = Some p" using a by (cases parentCommentId) (auto simp: truthy_num_def)
  have n: "node_at q (addReply new parentCommentId t) =
     Some (if p \<in> set (above q t) then c else addReply_node new p c)"
    using a p node_at_addReply[of q t c new p] by (simp add: addReply_def addReplyToTree_def)
  show "\<exists>c'. node_at q (addReply new parentCommentId t) = Some c' \<and>
         id_c c' = id_c c \<and> comment c' = comment c \<and> user c' = user c \<and>
         createdAt c' = createdAt c \<and> isOptimistic c' = isOptimistic c \<and>
         likeCount c' = likeCount c \<and> isLiked c' = isLiked c \<and>
         (id_c c = the parentCommentId \<and> the parentCommentId \<notin> set (above q t) \<longrightarrow>
            childComments c' = Some (kids c @ [new])) \<and>
         (id_c c \<noteq> the parentCommentId \<longrightarrow> map id_c (kids c') = map id_c (kids c))"
    using n p addReply_node_fields[of new p c] by (cases "p \<in> set (above q t)") simp_all
qed

theorem addReply_placement_witness:
  "truthy_num (Some 1) \<and>
   node_at [0] [ThreadComment 1 (js ''a'') 10 3 False \<lparr>name = js ''u'', avatar_large = []\<rparr>
           (Some [ThreadComment 2 (js ''b'') 11 0 True \<lparr>name = js ''v'', avatar_large = []\<rparr> None None]) None]
     = Some (ThreadComment 1 (js ''a'') 10 3 False \<lparr>name = js ''u'', avatar_large = []\<rparr>
           (Some [ThreadComment 2 (js ''b'') 11 0 True \<lparr>name = js ''v'', avatar_large = []\<rparr> None None]) None) \<and>
   (\<exists>c'. node_at [0] (addReply (newComment 1700000000000 1700000000003 (js ''hi'') \<lparr>name = js ''me'', avatar_large = []\<rparr>) (Some 1)
        [ThreadComment 1 (js ''a'') 10 3 False \<lparr>name = js ''u'', avatar_large = []\<rparr>
           (Some [ThreadComment 2 (js ''b'') 11 0 True \<lparr>name = js ''v'', avatar_large = []\<rparr> None None]) None]) = Some c' \<and>
      childComments c' = Some [ThreadComment 2 (js ''b'') 11 0 True \<lparr>name = js ''v'', avatar_large = []\<rparr> None None,
                               newComment 1700000000000 1700000000003 (js ''hi'') \<lparr>name = js ''me'', avatar_large = []\<rparr>])"
proof -
  let ?C2 = "ThreadComment 2 (js ''b'') 11 0 True \<lparr>name = js ''v'', avatar_large = []\<rparr> None None"
  let ?C1 = "ThreadComment 1 (js ''a'') 10 3 False \<lparr>name = js ''u'', avatar_large = []\<rparr> (Some [?C2]) None"
  let ?N = "newComment 1700000000000 1700000000003 (js ''hi'') \<lparr>name = js ''me'', avatar_large = []\<rparr>"
  have t: "truthy_num (Some 1)" by (simp add: truthy_num_def)
  have h: "node_at [0] [?C1] = Some ?C1" by simp
  have k: "id_c ?C1 = the (Some 1) \<and> the (Some 1) \<notin> set (above [0] [?C1])" by simp
  have "\<exists>c'. node_at [0] (addReply ?N (Some 1) [?C1]) = Some c' \<and>
          childComments c' = Some (kids ?C1 @ [?N])"
    using addReply_placement [of "Some 1" ?N "[?C1]" "[0]" ?C1] t h k by blast
  then show ?thesis using t h by (simp add: kids_def)
qed

text \<open>
  The claim as the specification states it fails for the parent id \<open>0\<close>: the id is given
  and a node carries it, but \<^verbatim>\<open>if (parentCommentId)\<close> takes it for absent, the new node
  becomes the first top-level node and node \<open>0\<close> gets no child.  It also fails for a node
  that carries the parent id below another node that carries it: the rewrite stops at the
  outer node, and the inner node keeps its children.
\<close>

theorem addReply_placement_counterexample:
  "node_at [0] [ThreadComment 0 (js ''a'') 10 3 False \<lparr>name = js ''u'', avatar_large = []\<rparr> (Some []) None] = Some (ThreadComment 0 (js ''a'') 10 3 False \<lparr>name = js ''u'', avatar_large = []\<rparr> (Some []) None) \<and>
   addReply (newComment 1700000000000 1700000000003 (js ''hi'') \<lparr>name = js ''me'', avatar_large = []\<rparr>) (Some 0) [ThreadComment 0 (js ''a'') 10 3 False \<lparr>name = js ''u'', avatar_large = []\<rparr> (Some []) None] = [newComment 1700000000000 1700000000003 (js ''hi'') \<lparr>name = js ''me'', avatar_large = []\<rparr>, ThreadComment 0 (js ''a'') 10 3 False \<lparr>name = js ''u'', avatar_large = []\<rparr> (Some []) None] \<and>
   node_at [1] (addReply (newComment 1700000000000 1700000000003 (js ''hi'') \<lparr>name = js ''me'', avatar_large = []\<rparr>) (Some 0) [ThreadComment 0 (js ''a'') 10 3 False \<lparr>name = js ''u'', avatar_large = []\<rparr> (Some []) None]) = Some (ThreadComment 0 (js ''a'') 10 3 False \<lparr>name = js ''u'', avatar_large = []\<rparr> (Some []) None) \<and>
   node_at [0, 0] [ThreadComment 1 (js ''a'') 10 3 False \<lparr>name = js ''u'', avatar_large = []\<rparr> (Some [ThreadComment 1 (js ''b'') 11 0 False \<lparr>name = js ''u'', avatar_large = []\<rparr> (Some []) None]) None] = Some (ThreadComment 1 (js ''b'') 11 0 False \<lparr>name = js ''u'', avatar_large = []\<rparr> (Some []) None) \<and>
   addReply (newComment 1700000000000 1700000000003 (js ''hi'') \<lparr>name = js ''me'', avatar_large = []\<rparr>) (Some 1) [ThreadComment 1 (js ''a'') 10 3 False \<lparr>name = js ''u'', avatar_large = []\<rparr> (Some [ThreadComment 1 (js ''b'') 11 0 False \<lparr>name = js ''u'', avatar_large = []\<rparr> (Some []) None]) None] = [ThreadComment 1 (js ''a'') 10 3 False \<lparr>name = js ''u'', avatar_large = []\<rparr> (Some [ThreadComment 1 (js ''b'') 11 0 False \<lparr>name = js ''u'', avatar_large = []\<rparr> (Some []) None, newComment 1700000000000 1700000000003 (js ''hi'') \<lparr>name = js ''me'', avatar_large = []\<rparr>]) None] \<and>
   node_at [0, 0] (addReply (newComment 1700000000000 1700000000003 (js ''hi'') \<lparr>name = js ''me'', avatar_large = []\<rparr>) (Some 1) [ThreadComment 1 (js ''a'') 10 3 False \<lparr>name = js ''u'', avatar_large = []\<rparr> (Some [ThreadComment 1 (js ''b'') 11 0 False \<lparr>name = js ''u'', avatar_large = []\<rparr> (Some []) None]) None]) = Some (ThreadComment 1 (js ''b'') 11 0 False \<lparr>name = js ''u'', avatar_large = []\<rparr> (Some []) None)"
  by (simp add: addReply_def truthy_num_def addReplyToTree_def kids_def)

subsection \<open>Rollback of an optimistic reply\<close>

lemma removeIn_absent: "i \<notin> id_c ` set (nodes_of c) \<Longrightarrow> removeIn_node i c = c"
proof (induction i c rule: removeIn_node.induct)
  case (1 commentId i c t n l u chs opt)
  show ?case
  proof (cases chs)
    case None then show ?thesis by simp
  next
    case (Some cs)
    have abs: "commentId \<notin> tree_ids cs"
      using 1(2) Some by (simp_all add: ids_node del: nodes_of.simps)
    then have nid: "\<forall>x \<in> set cs. id_c x \<noteq> commentId"
      using tree_ids_top by blast
    then have f: "filter (\<lambda>c. id_c c \<noteq> commentId) cs = cs" by simp
    have "map (removeIn_node commentId) cs = cs"
    proof (rule map_idI)
      fix x assume x: "x \<in> set cs"
      then have "commentId \<notin> id_c ` set (nodes_of x)" using abs tree_ids_mem by blast
      then show "removeIn_node commentId x = x" using 1(1) Some x nid by simp
    qed
    then show ?thesis using Some f by simp
  qed
qed

lemma removeInTree_absent: "i \<notin> tree_ids t \<Longrightarrow> removeInTree i t = t"
proof -
  assume a: "i \<notin> tree_ids t"
  have f: "filter (\<lambda>c. id_c c \<noteq> i) t = t"
    using a tree_ids_top by (auto simp: filter_id_conv)
  show ?thesis unfolding removeInTree_def f
    using a tree_ids_mem by (intro map_idI removeIn_absent) blast
qed

lemma filter_addReply:
  "tmp \<notin> tree_ids cs \<Longrightarrow>
   filter (\<lambda>c. id_c c \<noteq> tmp) (map (addReply_node new p) cs) = map (addReply_node new p) cs"
  using tree_ids_top by (auto simp: filter_id_conv id_addReply_node)

lemma rollback_node_present:
  "tmp \<notin> id_c ` set (nodes_of c) \<Longrightarrow> id_c new = tmp \<Longrightarrow> childComments new = Some [] \<Longrightarrow>
   present_children (removeIn_node tmp (addReply_node new p c)) = present_children c"
proof (induction new p c rule: addReply_node.induct)
  case (1 new pId i c t n l u chs opt)
  have abs: "\<And>cs. chs = Some cs \<Longrightarrow> tmp \<notin> tree_ids cs"
    using 1(2) by (simp_all add: ids_node del: nodes_of.simps)
  show ?case
  proof (cases "i = pId")
    case True
    have "\<And>cs. tmp \<notin> tree_ids cs \<Longrightarrow>
        map (removeIn_node tmp) (filter (\<lambda>c. id_c c \<noteq> tmp) (cs @ [new])) = cs"
      using 1(3) removeInTree_absent by (simp add: removeInTree_def)
    then show ?thesis using True abs removeInTree_absent[of tmp "[]"]
      by (cases chs) (simp_all add: 1(3) removeInTree_def tree_ids_Nil)
  next
    case False
    show ?thesis
    proof (cases chs)
      case None
      then show ?thesis using False by simp
    next
      case (Some cs)
      have "map (present_children \<circ> (removeIn_node tmp \<circ> addReply_node new pId)) cs = map present_children cs"
      proof (rule map_cong[OF refl])
        fix x assume x: "x \<in> set cs"
        then have "tmp \<notin> id_c ` set (nodes_of x)" using abs[OF Some] tree_ids_mem by blast
        then show "(present_children \<circ> (removeIn_node tmp \<circ> addReply_node new pId)) x = present_children x"
          using 1(1)[OF False Some x] 1(3,4) by simp
      qed
      then show ?thesis using False Some filter_addReply[OF abs[OF Some]] by simp
    qed
  qed
qed

lemma rollback_node_exact:
  "tmp \<notin> id_c ` set (nodes_of c) \<Longrightarrow> id_c new = tmp \<Longrightarrow>
   \<forall>x \<in> set (nodes_of c). id_c x = p \<longrightarrow> childComments x \<noteq> None \<Longrightarrow>
   removeIn_node tmp (addReply_node new p c) = c"
proof (induction new p c rule: addReply_node.induct)
  case (1 new pId i c t n l u chs opt)
  have abs: "\<And>cs. chs = Some cs \<Longrightarrow> tmp \<notin> tree_ids cs"
    using 1(2) by (simp_all add: ids_node del: nodes_of.simps)
  show ?case
  proof (cases "i = pId")
    case True
    then obtain cs where cs: "chs = Some cs" using 1(4) by auto
    have "map (removeIn_node tmp) (filter (\<lambda>c. id_c c \<noteq> tmp) (cs @ [new])) = cs"
      using 1(3) removeInTree_absent[OF abs[OF cs]] by (simp add: removeInTree_def)
    then show ?thesis using True cs by simp
  next
    case False
    show ?thesis
    proof (cases chs)
      case None
      then show ?thesis using False by simp
    next
      case (Some cs)
      have "map (removeIn_node tmp \<circ> addReply_node new pId) cs = cs"
      proof (rule map_idI)
        fix x assume x: "x \<in> set cs"
        then have a: "tmp \<notin> id_c ` set (nodes_of x)" using abs[OF Some] tree_ids_mem by blast
        have b: "\<forall>y \<in> set (nodes_of x). id_c y = pId \<longrightarrow> childComments y \<noteq> None"
          using 1(4) Some x by auto
        show "(removeIn_node tmp \<circ> addReply_node new pId) x = x"
          using 1(1)[OF False Some x a 1(3) b] by simp
      qed
      then show ?thesis using False Some filter_addReply[OF abs[OF Some]] by simp
    qed
  qed
qed


text \<open>
  Claim C4, as the code has it.  When the placeholder id is fresh, inserting the optimistic
  reply and then removing it gives back the forest up to the difference between an absent
  and an empty \<open>childComments\<close>; it gives back the very same forest when there is no
  parent, or when every node carrying the parent id has a \<open>childComments\<close> field.
\<close>

theorem addReply_rollback:
  "temporaryId \<notin> tree_ids t \<Longrightarrow>
   map present_children
     (removeInTree temporaryId (addReply (newComment temporaryId now text me) parentCommentId t)) =
     map present_children t \<and>
   (\<not> truthy_num parentCommentId \<or>
    (\<forall>x \<in> set (tree_nodes t). id_c x = the parentCommentId \<longrightarrow> childComments x \<noteq> None) \<longrightarrow>
    removeInTree temporaryId (addReply (newComment temporaryId now text me) parentCommentId t) = t)"
proof -
  assume fresh: "temporaryId \<notin> tree_ids t"
  let ?new = "newComment temporaryId now text me"
  have idn: "id_c ?new = temporaryId" and chn: "childComments ?new = Some []"
    by (simp_all add: newComment_def)
  have ft: "filter (\<lambda>c. id_c c \<noteq> temporaryId) t = t"
    using fresh tree_ids_top by (auto simp: filter_id_conv)
  have nx: "\<And>x. x \<in> set t \<Longrightarrow> temporaryId \<notin> id_c ` set (nodes_of x)"
    using fresh tree_ids_mem by blast
  show ?thesis
  proof (cases "truthy_num parentCommentId")
    case False
    have "removeInTree temporaryId (?new # t) = t"
      using removeInTree_absent[OF fresh] idn by (simp add: removeInTree_def)
    then show ?thesis using False by (simp add: addReply_def)
  next
    case True
    then obtain p where p: "parentCommentId = Some p"
      by (cases parentCommentId) (auto simp: truthy_num_def)
    have r: "removeInTree temporaryId (addReply ?new parentCommentId t) =
               map (removeIn_node temporaryId \<circ> addReply_node ?new p) t"
      using True p filter_addReply[OF fresh, of ?new p]
      by (simp add: addReply_def addReplyToTree_def removeInTree_def)
    have 1: "map present_children (map (removeIn_node temporaryId \<circ> addReply_node ?new p) t) =
               map present_children t"
      using rollback_node_present[OF nx idn chn] by simp
    have 2: "(\<forall>x \<in> set (tree_nodes t). id_c x = p \<longrightarrow> childComments x \<noteq> None) \<Longrightarrow>
               map (removeIn_node temporaryId \<circ> addReply_node ?new p) t = t"
    proof -
      assume a: "\<forall>x \<in> set (tree_nodes t). id_c x = p \<longrightarrow> childComments x \<noteq> None"
      show ?thesis
      proof (rule map_idI)
        fix x assume x: "x \<in> set t"
        have "\<forall>y \<in> set (nodes_of x). id_c y = p \<longrightarrow> childComments y \<noteq> None"
          using a x by (auto simp: tree_nodes_def)
        then show "(removeIn_node temporaryId \<circ> addReply_node ?new p) x = x"
          using rollback_node_exact[OF nx[OF x] idn] by simp
      qed
    qed
    show ?thesis using r 1 2 True p by simp
  qed
qed

theorem addReply_rollback_witness:
  "1700000000000 \<notin> tree_ids [ThreadComment 1 (js ''a'') 10 3 False \<lparr>name = js ''u'', avatar_large = []\<rparr> (Some [ThreadComment 2 (js ''b'') 11 0 True \<lparr>name = js ''v'', avatar_large = []\<rparr> None None]) None] \<and>
   filter (\<lambda>x. id_c x = 1 \<and> childComments x = None) (tree_nodes [ThreadComment 1 (js ''a'') 10 3 False \<lparr>name = js ''u'', avatar_large = []\<rparr> (Some [ThreadComment 2 (js ''b'') 11 0 True \<lparr>name = js ''v'', avatar_large = []\<rparr> None None]) None]) = [] \<and>
   removeInTree 1700000000000
     (addReply (newComment 1700000000000 1700000000003 (js ''hi'') \<lparr>name = js ''me'', avatar_large = []\<rparr>) (Some 1)
        [ThreadComment 1 (js ''a'') 10 3 False \<lparr>name = js ''u'', avatar_large = []\<rparr> (Some [ThreadComment 2 (js ''b'') 11 0 True \<lparr>name = js ''v'', avatar_large = []\<rparr> None None]) None]) = [ThreadComment 1 (js ''a'') 10 3 False \<lparr>name = js ''u'', avatar_large = []\<rparr> (Some [ThreadComment 2 (js ''b'') 11 0 True \<lparr>name = js ''v'', avatar_large = []\<rparr> None None]) None]"
proof -
  let ?t = "[ThreadComment 1 (js ''a'') 10 3 False \<lparr>name = js ''u'', avatar_large = []\<rparr> (Some [ThreadComment 2 (js ''b'') 11 0 True \<lparr>name = js ''v'', avatar_large = []\<rparr> None None]) None]"
  have h: "1700000000000 \<notin> tree_ids ?t"
    by (simp add: tree_ids_def tree_nodes_def)
  have k: "\<forall>x \<in> set (tree_nodes ?t). id_c x = the (Some 1) \<longrightarrow> childComments x \<noteq> None"
    by (simp add: tree_nodes_def)
  have f: "filter (\<lambda>x. id_c x = 1 \<and> childComments x = None) (tree_nodes ?t) = []"
    by (simp add: tree_nodes_def)
  show ?thesis
    using h k f addReply_rollback [OF h, of 1700000000003 "js ''hi''" "\<lparr>name = js ''me'', avatar_large = []\<rparr>" "Some 1"]
    by blast
qed

text \<open>
  The claim as the specification states it fails on a reply to a comment that has no
  \<open>childComments\<close> field: after the rollback the field is there, holding the empty array.
\<close>

theorem addReply_rollback_counterexample:
  "1700000000000 \<notin> tree_ids [ThreadComment 2 (js ''b'') 11 0 True \<lparr>name = js ''v'', avatar_large = []\<rparr> None None] \<and>
   removeInTree 1700000000000
     (addReply (newComment 1700000000000 1700000000003 (js ''hi'') \<lparr>name = js ''me'', avatar_large = []\<rparr>) (Some 2)
        [ThreadComment 2 (js ''b'') 11 0 True \<lparr>name = js ''v'', avatar_large = []\<rparr> None None]) \<noteq> [ThreadComment 2 (js ''b'') 11 0 True \<lparr>name = js ''v'', avatar_large = []\<rparr> None None]"
  by (simp add: tree_ids_def tree_nodes_def addReply_def truthy_num_def addReplyToTree_def
      removeInTree_def newComment_def)

section \<open>Properties of the markup parser\<close>

subsection \<open>Numeric character references out of range\<close>

text \<open>
  Claim C1 says that parsing never throws and that a numeric reference beyond the last
  code point stays literal text.  The code hands the number to
  \<^verbatim>\<open>String.fromCodePoint\<close> unchecked: on \<^verbatim>\<open>&#1114112;\<close> (that is \<^verbatim>\<open>0x110000\<close>) the
  decoder, and with it \<^verbatim>\<open>parseComment\<close>, ends in a \<^verbatim>\<open>RangeError\<close>.
\<close>

theorem parseComment_out_of_range:
  "decodeHtmlEntities (js ''&#1114112;'') = Inl RangeError \<and>
   parseComment (js ''&#1114112;'') = Inl RangeError"
  by (simp add: ev)

subsection \<open>A bold line that holds a link\<close>

text \<open>
  Claim C2, as the code has it.  The line \<^verbatim>\<open>**[a](http://x)**\<close> is a lone formatter:
  the parser yields one top-level segment of type \<^verbatim>\<open>center\<close>, whose content is the
  parse of what stands between the markers, one \<^verbatim>\<open>link\<close> segment with url
  \<^verbatim>\<open>http://x\<close> and with the string \<^verbatim>\<open>a\<close> as its content.
\<close>

theorem parse_bold_link:
  "parseComment (js ''**[a](http://x)**'') =
     Inr [Segment T_center
            (Segs [Segment T_link (Str (js ''a'')) (Some (js ''http://x'')) None None])
            None None None]"
  by (simp add: ev)

text \<open>The segment tree that the specification expects is not the result.\<close>

theorem parse_bold_link_counterexample:
  "parseComment (js ''**[a](http://x)**'') \<noteq>
     Inr [Segment T_bold
            (Segs [Segment T_link
                     (Segs [Segment T_text (Str (js ''a'')) None None None])
                     (Some (js ''http://x'')) None None])
            None None None]"
  by (simp add: ev)

subsection \<open>Progress of the inline loop\<close>




subsection \<open>Plain text comes back as one text segment\<close>

lemma plain_append [simp]: "plain (a @ b) \<longleftrightarrow> plain a \<and> plain b"
  by (auto simp: plain_def)

lemma plain_Cons: "plain (c # s) \<longleftrightarrow> c \<notin> trigger_chars \<and> plain s"
  by (auto simp: plain_def)

lemma plain_js:
  "plain (js p) \<longleftrightarrow> (\<forall>c \<in> set p. ch c \<notin> trigger_chars)"
  by (auto simp: plain_def js_def)

lemma trigger_simps:
  "ch CHR ''@'' \<in> trigger_chars" "ch CHR ''<'' \<in> trigger_chars" "ch CHR ''['' \<in> trigger_chars"
  "ch CHR ''*'' \<in> trigger_chars" "ch CHR ''_'' \<in> trigger_chars" "ch CHR ''~'' \<in> trigger_chars"
  "ch CHR ''('' \<in> trigger_chars" "ch CHR ''/'' \<in> trigger_chars" "ch CHR ''#'' \<in> trigger_chars"
  "ch CHR ''>'' \<in> trigger_chars" "ch CHR ''-'' \<in> trigger_chars" "ch CHR ''&'' \<in> trigger_chars"
  "backtick \<in> trigger_chars" "newline \<in> trigger_chars" "ch CHR 0x60 \<in> trigger_chars"
  by (simp_all add: trigger_chars_def js_def ch_def backtick_def)

lemma lit_i_lt:
  assumes "lit_i (CHR ''<'' # p) k s = Some r"
  shows "\<not> plain s"
proof -
  from assms have m: "map canon (take (Suc (length p)) s) = map canon (js (CHR ''<'' # p))"
    by (auto simp: lit_i_def split: if_splits)
  then obtain c s' where s: "s = c # s'" by (cases s) (auto simp: js_def)
  with m have "canon c = canon (ch CHR ''<'')" by (simp add: js_def)
  then have "c = ch CHR ''<''" by (auto simp: canon_def ch_def split: if_splits)
  then show ?thesis using s trigger_simps(2) by (simp add: plain_Cons)
qed

lemmas plain_ev = plain_Cons plain_js trigger_simps

lemma rx_inline_not_plain:
  "rx_user_link s = Some m \<Longrightarrow> \<not> plain s"
  "rx_img_embed s = Some m \<Longrightarrow> \<not> plain s"
  "rx_youtube s = Some m \<Longrightarrow> \<not> plain s"
  "rx_video s = Some m \<Longrightarrow> \<not> plain s"
  "rx_md_link s = Some m \<Longrightarrow> \<not> plain s"
  "rx_bold s = Some m \<Longrightarrow> \<not> plain s"
  "rx_italic s = Some m \<Longrightarrow> \<not> plain s"
  "rx_strike s = Some m \<Longrightarrow> \<not> plain s"
  "rx_spoiler_bang s = Some m \<Longrightarrow> \<not> plain s"
  "rx_spoiler_tilde s = Some m \<Longrightarrow> \<not> plain s"
  "rx_inline_code s = Some m \<Longrightarrow> \<not> plain s"
  "rx_url s = Some m \<Longrightarrow> \<not> plain s"
  unfolding rx_user_link_def rx_img_embed_def rx_youtube_def rx_video_def rx_md_link_def
    rx_bold_def rx_italic_def rx_strike_def rx_spoiler_bang_def rx_spoiler_tilde_def
    rx_inline_code_def rx_url_def
  by (elim rxE; simp add: plain_ev)+

lemma rx_tag_not_plain:
  "rx_a_img s = Some m \<Longrightarrow> \<not> plain s"
  "rx_img_tag s = Some m \<Longrightarrow> \<not> plain s"
  "rx_b_tag s = Some m \<Longrightarrow> \<not> plain s"
  "rx_a_tag s = Some m \<Longrightarrow> \<not> plain s"
  unfolding rx_a_img_def rx_img_tag_def rx_b_tag_def rx_a_tag_def
  by (erule lit_i_lt)+


lemma first_match_None: "(\<And>r. r \<in> set rs \<Longrightarrow> regex r s = None) \<Longrightarrow> first_match rs s = None"
  by (induction rs) auto

lemma not_SomeI: "(\<And>m. f = Some m \<Longrightarrow> \<not> P) \<Longrightarrow> P \<Longrightarrow> f = None"
  by (cases f) auto

lemmas rx_inline_plain = rx_inline_not_plain[THEN not_SomeI] rx_tag_not_plain[THEN not_SomeI]

lemma first_match_inline_plain: "plain s \<Longrightarrow> first_match inlineRules s = None"
  by (rule first_match_None) (auto simp: inlineRules_def rx_inline_plain)

lemma lit_plain: "\<exists>c \<in> set p. ch c \<in> trigger_chars \<Longrightarrow> plain s \<Longrightarrow> lit p k s = None"
proof (rule ccontr)
  assume a: "\<exists>c \<in> set p. ch c \<in> trigger_chars" "plain s" and "lit p k s \<noteq> None"
  then obtain r where "lit p k s = Some r" by auto
  then obtain s' where "s = js p @ s'" by (elim litE)
  then show False using a by (auto simp: plain_js)
qed

lemma token_at_plain: "plain s \<Longrightarrow> \<not> token_at s"
proof
  assume p: "plain s" and t: "token_at s"
  have 1: "lit ''http'' (opt_greedy (\<lambda>c. c = ch CHR ''s'') (\<lambda>_. lit ''://'' (\<lambda>_. Some ()))) s = None"
  proof (rule ccontr)
    assume "lit ''http'' (opt_greedy (\<lambda>c. c = ch CHR ''s'') (\<lambda>_. lit ''://'' (\<lambda>_. Some ()))) s \<noteq> None"
    then obtain r where
      "lit ''http'' (opt_greedy (\<lambda>c. c = ch CHR ''s'') (\<lambda>_. lit ''://'' (\<lambda>_. Some ()))) s = Some r"
      by auto
    then show False using p by (elim rxE) (simp add: plain_ev)
  qed
  have 2: "cls (\<lambda>c. c = backtick) (\<lambda>_. Some ()) s = None"
    using p by (cases s) (auto simp: cls_def plain_ev)
  have 3: "lit ''<'' (cls (\<lambda>c. c \<in> set (js ''a|img|b'')) (\<lambda>_. Some ())) s = None"
    using p by (intro lit_plain) (auto simp: trigger_simps)
  show False
    using t p 1 2 3 unfolding token_at_def
    by (simp add: lit_plain trigger_simps)
qed

lemma search_from_plain: "plain s \<Longrightarrow> search_from i s = None"
proof (induction s arbitrary: i)
  case Nil
  then show ?case using token_at_plain[of "[]"] by simp
next
  case (Cons c s)
  then show ?case using token_at_plain[of "c # s"] by (simp add: plain_Cons)
qed

lemma plain_text_plain: "plain s \<Longrightarrow> s \<noteq> [] \<Longrightarrow> plain_text s = s"
  by (simp add: plain_text_def search_def search_from_plain)

lemma parseInline_plain:
  assumes "plain s" "s \<noteq> []"
  shows "parseInline s = [Segment T_text (Str s) None None None]"
proof -
  have "inline_loop s [] = inline_loop [] (push_text [] s)"
    using assms
    by (subst inline_loop.simps) (simp add: first_match_inline_plain plain_text_plain)
  also have "\<dots> = [Segment T_text (Str s) None None None]"
    by (subst inline_loop.simps) (simp add: push_text_def)
  finally show ?thesis using assms by (subst parseInline.simps) simp
qed

lemma rx_line_not_plain:
  "rx_lone ''**'' s = Some m \<Longrightarrow> \<not> plain s"
  "rx_lone ''__'' s = Some m \<Longrightarrow> \<not> plain s"
  "rx_lone ''*'' s = Some m \<Longrightarrow> \<not> plain s"
  "rx_lone ''_'' s = Some m \<Longrightarrow> \<not> plain s"
  "rx_lone ''~~'' s = Some m \<Longrightarrow> \<not> plain s"
  "rx_center_line s = Some m \<Longrightarrow> \<not> plain s"
  "rx_heading s = Some m \<Longrightarrow> \<not> plain s"
  "rx_blockquote s = Some m \<Longrightarrow> \<not> plain s"
  "rx_hr s = Some m \<Longrightarrow> \<not> plain s"
  unfolding rx_lone_def rx_center_line_def rx_heading_def rx_blockquote_def rx_hr_def
  by (elim rxE; auto simp: plain_ev neq_Nil_conv)+

lemmas rx_line_plain = rx_line_not_plain[THEN not_SomeI]

lemma first_match_line_plain:
  "plain s \<Longrightarrow> first_match loneFormatterRules s = None"
  "plain s \<Longrightarrow> first_match lineStartRules s = None"
  by (rule first_match_None; auto simp: loneFormatterRules_def lineStartRules_def rx_line_plain)+

lemma plain_trim: "plain s \<Longrightarrow> plain (trim s)"
  unfolding plain_def trim_def
  by (metis (no_types, lifting) set_dropWhileD set_rev)

lemma split_lines_plain: "newline \<notin> set s \<Longrightarrow> split_lines s = [s]"
  by (induction s) auto

lemma parse_lines_plain:
  assumes "plain s" "s \<noteq> []"
  shows "parse_lines (split_lines s) = [Segment T_text (Str s) None None None]"
proof -
  have "newline \<notin> set s" using assms(1) trigger_simps(14) by (auto simp: plain_def)
  then show ?thesis
    using assms
    by (simp add: split_lines_plain first_match_line_plain plain_trim parseInline_plain)
qed


lemma rx_multiline_plain: "plain s \<Longrightarrow> rx_multiline bol s = None"
proof (rule not_SomeI[where P="plain s"])
  fix m assume "rx_multiline bol s = Some m"
  from rx_multiline_shape[OF this] show "\<not> plain s"
    by (auto simp: plain_ev)
qed

lemma exec_from_plain: "plain s \<Longrightarrow> exec_from i bol s = None"
  by (induction s arbitrary: i bol) (simp_all add: rx_multiline_plain plain_Cons)

lemma split_blocks_plain:
  assumes "plain s" "s \<noteq> []"
  shows "split_blocks s 0 [] = [B_text s]"
proof -
  have "exec_multiline s 0 = None"
    using assms(1) by (simp add: exec_multiline_def exec_from_plain)
  then show ?thesis using assms(2) by (subst split_blocks.simps) simp
qed

lemma replace_lit_plain:
  "\<exists>c \<in> set p. ch c \<in> trigger_chars \<Longrightarrow> plain s \<Longrightarrow> replace_lit p r s = s"
proof (induction p r s rule: replace_lit.induct)
  case (1 p r)
  then show ?case by simp
next
  case (2 p r c cs)
  have "take (length p) (c # cs) \<noteq> js p"
  proof
    assume "take (length p) (c # cs) = js p"
    then have "set (js p) \<subseteq> set (c # cs)" by (metis set_take_subset)
    then show False using 2(3,4) by (auto simp: plain_def js_def)
  qed
  then show ?case using 2 by (simp add: plain_Cons)
qed

lemma rx_numeric_plain: "plain s \<Longrightarrow> rx_numeric s = None"
proof (rule not_SomeI[where P="plain s"])
  fix m assume "rx_numeric s = Some m"
  then show "\<not> plain s" unfolding rx_numeric_def by (elim rxE) (simp add: plain_ev)
qed

lemma replace_numeric_plain: "plain s \<Longrightarrow> replace_numeric s = Inr s"
  by (induction s) (simp_all add: rx_numeric_plain plain_Cons)

lemma decodeHtmlEntities_plain: "plain s \<Longrightarrow> decodeHtmlEntities s = Inr s"
  by (simp add: decodeHtmlEntities_def replace_numeric_plain replace_lit_plain trigger_simps)

text \<open>
  Claim C5, as the code has it.  A string that is not empty and holds no trigger character
  parses to exactly one text segment, whose content is the string.
\<close>

theorem plain_text_roundtrip:
  "s \<noteq> [] \<Longrightarrow> set s \<inter> trigger_chars = {} \<Longrightarrow>
   parseComment s = Inr [Segment T_text (Str s) None None None]"
proof -
  assume ne: "s \<noteq> []" and "set s \<inter> trigger_chars = {}"
  then have p: "plain s" by (auto simp: plain_def)
  have "replace_lit ''<br>'' [newline] s = s"
    using p by (intro replace_lit_plain) (auto simp: trigger_simps)
  then show ?thesis
    using p ne
    by (subst parseComment.simps)
       (simp add: decodeHtmlEntities_plain split_blocks_plain parse_lines_plain)
qed

theorem plain_text_roundtrip_witness:
  "js ''Hello, world! 1 + 1 = 2'' \<noteq> [] \<and>
   set (js ''Hello, world! 1 + 1 = 2'') \<inter> trigger_chars = {} \<and>
   parseComment (js ''Hello, world! 1 + 1 = 2'') =
     Inr [Segment T_text (Str (js ''Hello, world! 1 + 1 = 2'')) None None None]"
proof -
  have 1: "js ''Hello, world! 1 + 1 = 2'' \<noteq> []" by (simp add: js_def)
  have 2: "set (js ''Hello, world! 1 + 1 = 2'') \<inter> trigger_chars = {}"
    by (simp add: js_def ch_def trigger_chars_def backtick_def newline_def)
  show ?thesis using 1 2 plain_text_roundtrip [OF 1 2] by simp
qed

text \<open>
  The empty string has no trigger character, and its parse is the empty list of segments,
  not one text segment.
\<close>

theorem plain_text_roundtrip_counterexample:
  "set ([] :: jsstring) \<inter> trigger_chars = {} \<and>
   parseComment [] = Inr [] \<and>
   parseComment [] \<noteq> Inr [Segment T_text (Str []) None None None]"
  by (simp add: ev)

subsection \<open>Fenced code is kept verbatim\<close>









lemma collect_Inr_all: "collect xs = Inr segs \<Longrightarrow> x \<in> set xs \<Longrightarrow> \<exists>a. x = Inr a"
  by (induction xs arbitrary: segs) (auto split: sum.splits)

lemma split_blocks_fences:
  "B_obj t c \<in> set (split_blocks s i blocks) \<Longrightarrow>
   B_obj t c \<in> set blocks \<or>
   (\<exists>pre post opn clo. s = pre @ js opn @ c @ js clo @ post \<and>
      ((opn = ''```'' \<and> clo = ''```'' \<and> t = T_code_block) \<or>
       (opn = ''~~~'' \<and> clo = ''~~~'' \<and> t = T_center) \<or>
       (opn = ''~!'' \<and> clo = ''!~'' \<and> t = T_spoiler)))"
proof (induction s i blocks rule: split_blocks.induct)
  case (1 remainingText lastIndex blocks)
  show ?case
  proof (cases "exec_multiline remainingText lastIndex")
    case None
    then show ?thesis using 1(2) by (subst (asm) split_blocks.simps) (auto split: if_splits)
  next
    case (Some im)
    obtain index m where im: "im = (index, m)" by (cases im)
    let ?bol = "lastIndex = 0 \<or> is_line_terminator (remainingText ! (lastIndex - 1))"
    have e: "exec_from lastIndex ?bol (drop lastIndex remainingText) = Some (index, m)"
      using Some im by (simp add: exec_multiline_def)
    from exec_from_good[OF e] obtain b where
      rx: "rx_multiline b (drop (index - lastIndex) (drop lastIndex remainingText)) = Some m"
      by blast
    from rx_multiline_shape[OF rx] obtain t' c' opn clo rest where
      sh: "drop (index - lastIndex) (drop lastIndex remainingText) = js opn @ c' @ js clo @ rest"
          "block_of m = [B_obj t' c']"
          "(opn = ''```'' \<and> clo = ''```'' \<and> t' = T_code_block) \<or>
           (opn = ''~~~'' \<and> clo = ''~~~'' \<and> t' = T_center) \<or>
           (opn = ''~!'' \<and> clo = ''!~'' \<and> t' = T_spoiler)"
      by blast
    have "remainingText =
            take (index - lastIndex + lastIndex) remainingText @ js opn @ c' @ js clo @ rest"
      using sh(1) by (metis append_take_drop_id drop_drop)
    then have here: "\<exists>pre post. remainingText = pre @ js opn @ c' @ js clo @ post" by blast
    let ?bl = "(if index > lastIndex
              then blocks @ [B_text (substring remainingText lastIndex index)]
              else blocks) @ block_of m"
    have "B_obj t c \<in> set (split_blocks remainingText (index + length (fst m)) ?bl)"
      using 1(2) Some im by (subst (asm) split_blocks.simps) simp
    from 1(1)[OF Some[unfolded im] refl this]
    show ?thesis using sh(2,3) here by (auto split: if_splits)
  qed
qed






subsection \<open>Where parsing returns\<close>

lemma replace_lit_same: "replace_lit p (js p) s = s"
proof (induction p "js p" s rule: replace_lit.induct)
  case (1 p)
  then show ?case by simp
next
  case (2 p c cs)
  show ?case
  proof (cases "p \<noteq> [] \<and> take (length p) (c # cs) = js p")
    case True
    then have "js p @ drop (length p) (c # cs) = c # cs" by (metis append_take_drop_id)
    then show ?thesis using 2(1) True by simp
  next
    case False
    then show ?thesis using 2(2) by auto
  qed
qed

lemma set_replace_lit: "set (replace_lit p r s) \<subseteq> set s \<union> set r"
proof (induction p r s rule: replace_lit.induct)
  case (1 p r)
  then show ?case by simp
next
  case (2 p r c cs)
  show ?case
  proof (cases "p \<noteq> [] \<and> take (length p) (c # cs) = js p")
    case True
    have "set (drop (length p) (c # cs)) \<subseteq> set (c # cs)" by (rule set_drop_subset)
    then show ?thesis using 2(1) True by auto
  next
    case False
    then show ?thesis using 2(2) by auto
  qed
qed

lemma rx_numeric_amp: "rx_numeric s = Some m \<Longrightarrow> ch CHR ''&'' \<in> set s"
  unfolding rx_numeric_def by (elim rxE) (simp add: js_def)

lemma replace_numeric_no_amp: "ch CHR ''&'' \<notin> set s \<Longrightarrow> replace_numeric s = Inr s"
proof (induction s)
  case Nil
  then show ?case by simp
next
  case (Cons c cs)
  have "rx_numeric (c # cs) = None" using rx_numeric_amp[of "c # cs"] Cons.prems
    by (cases "rx_numeric (c # cs)") auto
  then show ?case using Cons by simp
qed

lemma decode_no_amp: "ch CHR ''&'' \<notin> set s \<Longrightarrow> decodeHtmlEntities s = Inr s"
  using replace_lit_same[of "''&''"] replace_lit_same[of "''<''"] replace_lit_same[of "''>''"]
  by (simp add: decodeHtmlEntities_def replace_numeric_no_amp)

lemma collect_all_Inr: "(\<And>x. x \<in> set xs \<Longrightarrow> \<exists>a. x = Inr a) \<Longrightarrow> \<exists>segs. collect xs = Inr segs"
proof (induction xs)
  case Nil
  then show ?case by simp
next
  case (Cons x xs)
  obtain a where "x = Inr a" using Cons.prems[of x] by auto
  moreover obtain segs where "collect xs = Inr segs" using Cons by auto
  ultimately show ?case by simp
qed

text \<open>
  The decoder is the only place where the parser can throw: on an input without an
  ampersand, \<open>parseComment\<close> returns a list of segments.
\<close>

lemma parseComment_returns:
  "ch CHR ''&'' \<notin> set s \<Longrightarrow> \<exists>segments. parseComment s = Inr segments"
proof (induction s rule: parseComment.induct)
  case (1 tx)
  let ?d = "replace_lit ''<br>'' [newline] tx"
  have na: "ch CHR ''&'' \<notin> set ?d"
    using set_replace_lit[of "''<br>''" "[newline]" tx] 1(3) by (auto simp: newline_def ch_def)
  then have d: "decodeHtmlEntities ?d = Inr ?d" by (rule decode_no_amp)
  let ?f = "\<lambda>block.
                    case block of
                      B_obj t c \<Rightarrow>
                        (if t = T_center
                         then (case parseComment c of
                                 Inl e \<Rightarrow> Inl e
                               | Inr segs \<Rightarrow> Inr [Segment T_center (Segs segs) None None None])
                         else if t = T_spoiler
                         then (case parseComment c of
                                 Inl e \<Rightarrow> Inl e
                               | Inr segs \<Rightarrow> Inr [Segment T_spoiler (Segs segs) None None None])
                         else Inr [Segment t (Str c) None None None])
                    | B_text b \<Rightarrow> Inr (parse_lines (split_lines b))"
  have "\<And>x. x \<in> set (map ?f (split_blocks ?d 0 [])) \<Longrightarrow> \<exists>a. x = Inr a"
  proof -
    fix x assume "x \<in> set (map ?f (split_blocks ?d 0 []))"
    then obtain b where b: "b \<in> set (split_blocks ?d 0 [])" and x: "x = ?f b" by auto
    show "\<exists>a. x = Inr a"
    proof (cases b)
      case (B_text y)
      then show ?thesis using x by simp
    next
      case (B_obj t c)
      from split_blocks_fences[of t c ?d 0 "[]"] b B_obj
      have "set c \<subseteq> set ?d" by auto
      then have nc: "ch CHR ''&'' \<notin> set c" using na by auto
      have "t = T_center \<Longrightarrow> \<exists>segs. parseComment c = Inr segs"
        using 1(1)[OF d b B_obj _ nc] by simp
      moreover have "t \<noteq> T_center \<Longrightarrow> t = T_spoiler \<Longrightarrow> \<exists>segs. parseComment c = Inr segs"
        using 1(2)[OF d b B_obj _ _ nc] by simp
      ultimately show ?thesis using x B_obj by auto
    qed
  qed
  from collect_all_Inr[OF this] obtain segs where "collect (map ?f (split_blocks ?d 0 [])) = Inr segs"
    by blast
  then show ?case using d by (subst parseComment.simps) simp
qed


end
